theory Spec2Isabelle
  imports Main "HOL-Library.Word" "HOL-Library.Char_ord" "HOL-Library.List_Lexorder"
begin

unbundle bit_operations_syntax

section \<open>Python string primitives used by \<^verbatim>\<open>gitignore.py\<close>\<close>

text \<open>
  A Python \<^verbatim>\<open>str\<close> is modelled as a \<^typ>\<open>string\<close> whose characters are the code
  points 0..255. On those code points the definitions below are the library functions the
  module calls: \<^verbatim>\<open>str.isspace\<close>, \<^verbatim>\<open>str.strip\<close>, \<^verbatim>\<open>str.lstrip\<close>, \<^verbatim>\<open>str.rstrip\<close>,
  \<^verbatim>\<open>str.lower\<close>, \<^verbatim>\<open>str.join\<close>, \<^verbatim>\<open>str.startswith\<close>, \<^verbatim>\<open>str.replace\<close>, the
  comparison of strings by code point (the lexicographic order on \<^typ>\<open>char list\<close>), and
  the iteration over the lines of an \<^verbatim>\<open>io.StringIO\<close>.
\<close>

abbreviation NL :: char where
  "NL \<equiv> CHR 0x0A"

abbreviation CR :: char where
  "CR \<equiv> CHR 0x0D"

definition isspace :: "char \<Rightarrow> bool" where
  "isspace c = (of_char c \<in> {9, 10, 11, 12, 13, 28, 29, 30, 31, 32, 133, 160 :: nat})"

definition lstrip :: "string \<Rightarrow> string" where
  "lstrip s = dropWhile isspace s"

definition rstrip :: "string \<Rightarrow> string" where
  "rstrip s = rev (dropWhile isspace (rev s))"

definition strip :: "string \<Rightarrow> string" where
  "strip s = rstrip (lstrip s)"

definition lstrip_chars :: "string \<Rightarrow> string \<Rightarrow> string" where
  "lstrip_chars cs s = dropWhile (\<lambda>c. c \<in> set cs) s"

definition rstrip_chars :: "string \<Rightarrow> string \<Rightarrow> string" where
  "rstrip_chars cs s = rev (dropWhile (\<lambda>c. c \<in> set cs) (rev s))"

definition startswith :: "string \<Rightarrow> string \<Rightarrow> bool" where
  "startswith s p = (take (length p) s = p)"

definition lower_char :: "char \<Rightarrow> char" where
  "lower_char c = (let n = (of_char c :: nat) in
     if (65 \<le> n \<and> n \<le> 90) \<or> (192 \<le> n \<and> n \<le> 222 \<and> n \<noteq> 215) then char_of (n + 32) else c)"

definition lower :: "string \<Rightarrow> string" where
  "lower s = map lower_char s"

fun join :: "string \<Rightarrow> string list \<Rightarrow> string" where
  "join sep [] = []"
| "join sep [x] = x"
| "join sep (x # y # ys) = x @ sep @ join sep (y # ys)"

text \<open>
  Iterating over \<^verbatim>\<open>io.StringIO(text)\<close> yields the lines of the text, each with its
  terminating newline kept; only the line feed ends a line, and a text that does not end in
  a line feed yields its last piece without one.
\<close>

fun readlines_acc :: "string \<Rightarrow> string \<Rightarrow> string list" where
  "readlines_acc cur [] = (if cur = [] then [] else [cur])"
| "readlines_acc cur (c # cs) =
     (if c = NL then (cur @ [c]) # readlines_acc [] cs else readlines_acc (cur @ [c]) cs)"

definition readlines :: "string \<Rightarrow> string list" where
  "readlines text = readlines_acc [] text"

text \<open>
  Both regular expressions of the module have the shape \<^verbatim>\<open>^prefix(.*)\]$\<close>, applied with
  \<^verbatim>\<open>re.match\<close>: the string starts with the literal prefix, the group is greedy and takes
  no line feed, a closing bracket follows, and \<^verbatim>\<open>$\<close> is the end of the string or the
  position before one final line feed. The result is group 1 of the match.
\<close>

definition re_match_bracket :: "string \<Rightarrow> string \<Rightarrow> string option" where
  "re_match_bracket pre s =
     (if startswith s pre then
        (let r = drop (length pre) s;
             body = (if r \<noteq> [] \<and> last r = NL then butlast r else r)
         in if body \<noteq> [] \<and> last body = CHR '']'' \<and> NL \<notin> set body
            then Some (butlast body) else None)
      else None)"

text \<open>\<^verbatim>\<open>"{hash}".format(hash=h)\<close> for an optional string: \<^verbatim>\<open>None\<close> is printed by name.\<close>

fun format_hash :: "string option \<Rightarrow> string" where
  "format_hash None = ''None''"
| "format_hash (Some h) = h"

section \<open>SHA-256 (\<^verbatim>\<open>hashlib.sha256(...).hexdigest()\<close>)\<close>

definition utf8_char :: "char \<Rightarrow> 8 word list" where
  "utf8_char c = (let n = (of_char c :: nat) in
     if n < 128 then [of_nat n]
     else [of_nat (192 + n div 64), of_nat (128 + n mod 64)])"

definition encode_utf8 :: "string \<Rightarrow> 8 word list" where
  "encode_utf8 s = concat (map utf8_char s)"

definition sha256_k :: "32 word list" where
  "sha256_k =
     [0x428a2f98, 0x71374491, 0xb5c0fbcf, 0xe9b5dba5, 0x3956c25b, 0x59f111f1, 0x923f82a4, 0xab1c5ed5] @
     [0xd807aa98, 0x12835b01, 0x243185be, 0x550c7dc3, 0x72be5d74, 0x80deb1fe, 0x9bdc06a7, 0xc19bf174] @
     [0xe49b69c1, 0xefbe4786, 0x0fc19dc6, 0x240ca1cc, 0x2de92c6f, 0x4a7484aa, 0x5cb0a9dc, 0x76f988da] @
     [0x983e5152, 0xa831c66d, 0xb00327c8, 0xbf597fc7, 0xc6e00bf3, 0xd5a79147, 0x06ca6351, 0x14292967] @
     [0x27b70a85, 0x2e1b2138, 0x4d2c6dfc, 0x53380d13, 0x650a7354, 0x766a0abb, 0x81c2c92e, 0x92722c85] @
     [0xa2bfe8a1, 0xa81a664b, 0xc24b8b70, 0xc76c51a3, 0xd192e819, 0xd6990624, 0xf40e3585, 0x106aa070] @
     [0x19a4c116, 0x1e376c08, 0x2748774c, 0x34b0bcb5, 0x391c0cb3, 0x4ed8aa4a, 0x5b9cca4f, 0x682e6ff3] @
     [0x748f82ee, 0x78a5636f, 0x84c87814, 0x8cc70208, 0x90befffa, 0xa4506ceb, 0xbef9a3f7, 0xc67178f2]"

definition sha256_init :: "32 word list" where
  "sha256_init = [0x6a09e667, 0xbb67ae85, 0x3c6ef372, 0xa54ff53a,
                  0x510e527f, 0x9b05688c, 0x1f83d9ab, 0x5be0cd19]"

definition sha256_pad :: "8 word list \<Rightarrow> 8 word list" where
  "sha256_pad m = (let l = length m; bits = (of_nat (8 * l) :: 64 word) in
     m @ [0x80] @ replicate ((119 - l mod 64) mod 64) 0 @
     map (\<lambda>i. ucast (drop_bit (8 * (7 - i)) bits)) [0..<8])"

fun be32 :: "8 word list \<Rightarrow> 32 word list" where
  "be32 (a # b # c # d # r) =
     (push_bit 24 (ucast a) OR push_bit 16 (ucast b) OR push_bit 8 (ucast c) OR ucast d) # be32 r"
| "be32 _ = []"

definition ssig0 :: "32 word \<Rightarrow> 32 word" where
  "ssig0 x = word_rotr 7 x XOR word_rotr 18 x XOR drop_bit 3 x"

definition ssig1 :: "32 word \<Rightarrow> 32 word" where
  "ssig1 x = word_rotr 17 x XOR word_rotr 19 x XOR drop_bit 10 x"

definition bsig0 :: "32 word \<Rightarrow> 32 word" where
  "bsig0 x = word_rotr 2 x XOR word_rotr 13 x XOR word_rotr 22 x"

definition bsig1 :: "32 word \<Rightarrow> 32 word" where
  "bsig1 x = word_rotr 6 x XOR word_rotr 11 x XOR word_rotr 25 x"

fun sha256_schedule :: "nat \<Rightarrow> 32 word list \<Rightarrow> 32 word list" where
  "sha256_schedule 0 w = w"
| "sha256_schedule (Suc n) w = (let l = length w in
     sha256_schedule n
       (w @ [ssig1 (w ! (l - 2)) + w ! (l - 7) + ssig0 (w ! (l - 15)) + w ! (l - 16)]))"

fun sha256_round :: "32 word list \<Rightarrow> 32 word \<times> 32 word \<Rightarrow> 32 word list" where
  "sha256_round [a, b, c, d, e, f, g, h] (k, w) =
     (let t1 = h + bsig1 e + ((e AND f) XOR (NOT e AND g)) + k + w;
          t2 = bsig0 a + ((a AND b) XOR (a AND c) XOR (b AND c))
      in [t1 + t2, a, b, c, d + t1, e, f, g])"
| "sha256_round s _ = s"

definition sha256_block :: "32 word list \<Rightarrow> 8 word list \<Rightarrow> 32 word list" where
  "sha256_block hs blk =
     map2 (+) hs (foldl sha256_round hs (zip sha256_k (sha256_schedule 48 (be32 blk))))"

fun sha256_blocks :: "nat \<Rightarrow> 32 word list \<Rightarrow> 8 word list \<Rightarrow> 32 word list" where
  "sha256_blocks 0 hs m = hs"
| "sha256_blocks (Suc n) hs m = sha256_blocks n (sha256_block hs (take 64 m)) (drop 64 m)"

definition sha256 :: "8 word list \<Rightarrow> 32 word list" where
  "sha256 m = (let p = sha256_pad m in sha256_blocks (length p div 64) sha256_init p)"

definition hex_digit :: "nat \<Rightarrow> char" where
  "hex_digit n = ''0123456789abcdef'' ! (n mod 16)"

definition hex32 :: "32 word \<Rightarrow> string" where
  "hex32 w = map (\<lambda>i. hex_digit (unat (drop_bit (4 * (7 - i)) w))) [0..<8]"

definition hexdigest :: "32 word list \<Rightarrow> string" where
  "hexdigest ws = concat (map hex32 ws)"

section \<open>The module \<^verbatim>\<open>kraken.std.git.gitignore\<close>\<close>

subsection \<open>Constants\<close>

definition GITIGNORE_API_URL :: string where
  "GITIGNORE_API_URL = ''https://www.toptal.com/developers/gitignore/api/''"

definition GENERATED_GUARD_START_PREFIX :: string where
  "GENERATED_GUARD_START_PREFIX = ''### START-GENERATED-CONTENT [HASH: ''"

definition GENERATED_GUARD_START_TEMPLATE :: "string option \<Rightarrow> string" where
  "GENERATED_GUARD_START_TEMPLATE h = GENERATED_GUARD_START_PREFIX @ format_hash h @ '']''"

definition GENERATED_GUARD_START_REGEX :: "string \<Rightarrow> string option" where
  "GENERATED_GUARD_START_REGEX line = re_match_bracket GENERATED_GUARD_START_PREFIX line"

definition PARAMETER_HASH_PREFIX :: string where
  "PARAMETER_HASH_PREFIX = ''### [PARAMETERS_HASH: ''"

definition PARAMETER_HASH_TEMPLATE :: "string option \<Rightarrow> string" where
  "PARAMETER_HASH_TEMPLATE h = PARAMETER_HASH_PREFIX @ format_hash h @ '']''"

definition PARAMETER_HASH_REGEX :: "string \<Rightarrow> string option" where
  "PARAMETER_HASH_REGEX line = re_match_bracket PARAMETER_HASH_PREFIX line"

definition BANNER_RULE :: string where
  "BANNER_RULE = ''# -------------------------------------------------------------------------------------------------''"

definition GENERATED_GUARD_DESCRIPTION :: string where
  "GENERATED_GUARD_DESCRIPTION = join [NL]
     [BANNER_RULE,
      ''# THIS SECTION WAS AUTOMATICALLY GENERATED BY KRAKEN; DO NOT MODIFY OR YOUR CHANGES WILL BE LOST.'',
      ''# If you need to define custom gitignore rules, add them below'',
      BANNER_RULE]"

definition GENERATED_GUARD_END :: string where
  "GENERATED_GUARD_END = ''### END-GENERATED-CONTENT''"

subsection \<open>Errors\<close>

datatype error = GitignoreException string | ValueError string

subsection \<open>Entries\<close>

datatype GitignoreEntryType = COMMENT | BLANK | PATH

datatype GitignoreEntry = GitignoreEntry (etype: GitignoreEntryType) (evalue: string)

definition is_comment :: "GitignoreEntry \<Rightarrow> bool" where
  "is_comment e = (etype e = COMMENT)"

definition is_blank :: "GitignoreEntry \<Rightarrow> bool" where
  "is_blank e = (etype e = BLANK)"

definition is_path :: "GitignoreEntry \<Rightarrow> bool" where
  "is_path e = (etype e = PATH)"

definition str_entry :: "GitignoreEntry \<Rightarrow> string" where
  "str_entry e = (if is_comment e then ''# '' @ evalue e else evalue e)"

subsection \<open>Hashing\<close>

definition hash_content :: "string \<Rightarrow> string" where
  "hash_content content = hexdigest (sha256 (encode_utf8 content))"

definition hash_parameters :: "string list \<Rightarrow> string list \<Rightarrow> string" where
  "hash_parameters tokens extra_paths = hash_content (join '','' (tokens @ extra_paths))"

subsection \<open>The document\<close>

record GitignoreFile =
  entries :: "GitignoreEntry list"
  generated_content :: string
  generated_content_hash :: "string option"
  parameters_hash :: "string option"

text \<open>The constructor: the three other fields are the class-level defaults.\<close>

definition GitignoreFile_init :: "GitignoreEntry list \<Rightarrow> GitignoreFile" where
  "GitignoreFile_init es =
     \<lparr>entries = es, generated_content = [], generated_content_hash = None,
      parameters_hash = None\<rparr>"

text \<open>\<^verbatim>\<open>next((i for i, e in enumerate(xs) if p(e)), None)\<close>, counting from \<open>i\<close>.\<close>

fun next_index :: "('a \<Rightarrow> bool) \<Rightarrow> nat \<Rightarrow> 'a list \<Rightarrow> nat option" where
  "next_index p i [] = None"
| "next_index p i (e # es) = (if p e then Some i else next_index p (Suc i) es)"

definition find_comment :: "string \<Rightarrow> GitignoreFile \<Rightarrow> nat option" where
  "find_comment comment self =
     next_index (\<lambda>e. is_comment e \<and> strip (lstrip_chars ''#'' (evalue e)) = comment) 0
       (entries self)"

text \<open>
  \<^verbatim>\<open>list.insert(index, x)\<close>: a negative index counts from the end, and an index outside
  the list is clamped to its ends.
\<close>

definition list_insert :: "int \<Rightarrow> 'a \<Rightarrow> 'a list \<Rightarrow> 'a list" where
  "list_insert index x xs =
     (let n = int (length xs);
          j = (if index < 0 then max 0 (n + index) else min n index)
      in take (nat j) xs @ x # drop (nat j) xs)"

definition insert_entry :: "GitignoreEntry \<Rightarrow> int option \<Rightarrow> GitignoreFile \<Rightarrow> GitignoreFile" where
  "insert_entry entry index self =
     self\<lparr>entries := list_insert (case index of None \<Rightarrow> int (length (entries self)) | Some i \<Rightarrow> i)
                          entry (entries self)\<rparr>"

definition add_comment :: "string \<Rightarrow> int option \<Rightarrow> GitignoreFile \<Rightarrow> GitignoreFile" where
  "add_comment comment index self = insert_entry (GitignoreEntry COMMENT comment) index self"

definition add_blank :: "int option \<Rightarrow> GitignoreFile \<Rightarrow> GitignoreFile" where
  "add_blank index self = insert_entry (GitignoreEntry BLANK []) index self"

definition add_path :: "string \<Rightarrow> int option \<Rightarrow> GitignoreFile \<Rightarrow> GitignoreFile" where
  "add_path path index self = insert_entry (GitignoreEntry PATH path) index self"

text \<open>
  \<^verbatim>\<open>remove_path\<close>: the loop deletes the first matching entry until none is left and
  counts the deletions; the document is returned as the loop left it, with the outcome.
\<close>

definition del_index :: "nat \<Rightarrow> 'a list \<Rightarrow> 'a list" where
  "del_index i xs = take i xs @ drop (Suc i) xs"

function remove_path_loop :: "string \<Rightarrow> GitignoreEntry list \<Rightarrow> nat \<Rightarrow> GitignoreEntry list \<times> nat" where
  "remove_path_loop path es removed =
     (case next_index (\<lambda>e. is_path e \<and> evalue e = path) 0 es of
        None \<Rightarrow> (es, removed)
      | Some index \<Rightarrow> remove_path_loop path (del_index index es) (removed + 1))"
  by pat_completeness auto
termination
proof (relation "measure (\<lambda>(path, es, removed). length es)")
  fix path :: string and es :: "GitignoreEntry list" and removed index :: nat
  assume found: "next_index (\<lambda>e. is_path e \<and> evalue e = path) 0 es = Some index"
  have bound: "next_index p i xs = Some j \<Longrightarrow> j < i + length xs"
    for p :: "GitignoreEntry \<Rightarrow> bool" and i j xs
    by (induction xs arbitrary: i) (auto split: if_splits, fastforce)
  from bound [OF found] have "index < length es" by simp
  then show "((path, del_index index es, removed + 1), (path, es, removed))
      \<in> measure (\<lambda>(path, es, removed). length es)"
    by (simp add: del_index_def)
qed simp

declare remove_path_loop.simps [simp del]

definition remove_path :: "string \<Rightarrow> GitignoreFile \<Rightarrow> (error + unit) \<times> GitignoreFile" where
  "remove_path path self =
     (let (es, removed) = remove_path_loop path (entries self) 0;
          self' = self\<lparr>entries := es\<rparr>
      in if removed = 0
         then (Inl (ValueError ([CHR 0x22] @ path @ [CHR 0x22] @ '' not in GitignoreFile'')), self')
         else (Inr (), self'))"

definition render :: "GitignoreFile \<Rightarrow> string" where
  "render self =
     (let guarded_section =
            [GENERATED_GUARD_START_TEMPLATE (generated_content_hash self),
             generated_content self,
             GENERATED_GUARD_END];
          user_content = map str_entry (entries self)
      in join [NL] guarded_section @ [NL] @ join [NL] user_content @ [NL])"

subsection \<open>Refreshing the generated section\<close>

record Response =
  status_code :: int
  response_text :: string

definition refresh_generated_content ::
    "(string \<Rightarrow> Response) \<Rightarrow> string list \<Rightarrow> string list \<Rightarrow> GitignoreFile
      \<Rightarrow> (error + unit) \<times> GitignoreFile" where
  "refresh_generated_content http_get tokens extra_paths self =
     (let result = http_get (GITIGNORE_API_URL @ join '','' tokens) in
      if status_code result \<noteq> 200
      then (Inl (GitignoreException (''Error status code returned from '' @ GITIGNORE_API_URL)), self)
      else
       (let fetched_content = filter (\<lambda>c. c \<noteq> CR) (response_text result);
            self = self\<lparr>parameters_hash := Some (hash_parameters tokens extra_paths)\<rparr>;
            self = self\<lparr>generated_content := join [NL]
                     ([GENERATED_GUARD_DESCRIPTION,
                       PARAMETER_HASH_TEMPLATE (parameters_hash self),
                       [],
                       fetched_content,
                       ''# Extra paths''] @ extra_paths @ [BANNER_RULE])\<rparr>
        in (Inr (), self)))"

definition refresh_generated_content_hash :: "GitignoreFile \<Rightarrow> GitignoreFile" where
  "refresh_generated_content_hash self =
     self\<lparr>generated_content_hash := Some (hash_content (generated_content self))\<rparr>"

definition check_generation_parameters :: "string list \<Rightarrow> string list \<Rightarrow> GitignoreFile \<Rightarrow> bool" where
  "check_generation_parameters tokens extra_paths self =
     (parameters_hash self = Some (hash_parameters tokens extra_paths))"

definition check_generated_content_hash :: "GitignoreFile \<Rightarrow> bool" where
  "check_generated_content_hash self =
     (generated_content_hash self = Some (hash_content (generated_content self)))"

subsection \<open>Sorting\<close>

datatype Group = Group (comments: "string list") (paths: "string list")

text \<open>One iteration of the grouping loop; \<^verbatim>\<open>groups[-1]\<close> is the last group.\<close>

definition group_step :: "Group list \<Rightarrow> GitignoreEntry \<Rightarrow> Group list" where
  "group_step groups entry =
     (if is_path entry then
        butlast groups @ [Group (comments (last groups)) (paths (last groups) @ [evalue entry])]
      else if is_comment entry then
        (if paths (last groups) \<noteq> [] then groups @ [Group [evalue entry] []]
         else butlast groups @ [Group (comments (last groups) @ [evalue entry]) (paths (last groups))])
      else groups)"

text \<open>One iteration of the rebuilding loop.\<close>

definition emit_group :: "bool \<Rightarrow> GitignoreFile \<Rightarrow> Group \<Rightarrow> GitignoreFile" where
  "emit_group sort_paths self grp =
     (let ps = (if sort_paths then sort_key lower (paths grp) else paths grp);
          self = foldl (\<lambda>s comment. add_comment comment None s) self (comments grp);
          self = foldl (\<lambda>s path. add_path path None s) self ps
      in add_blank None self)"

definition sort_gitignore :: "bool \<Rightarrow> bool \<Rightarrow> GitignoreFile \<Rightarrow> GitignoreFile" where
  "sort_gitignore sort_paths sort_groups self =
     (let groups = foldl group_step [Group [] []] (entries self);
          groups = (if sort_groups then sort_key (\<lambda>g. lower (join [NL] (comments g))) groups
                    else groups);
          self = self\<lparr>entries := []\<rparr>;
          self = add_blank None self;
          self = foldl (emit_group sort_paths) self groups
      in if entries self \<noteq> [] \<and> is_blank (last (entries self))
         then self\<lparr>entries := butlast (entries self)\<rparr> else self)"

subsection \<open>Parsing\<close>

datatype State = USER | GENERATED

record parse_state =
  gitignore :: GitignoreFile
  state :: State
  generated_content_list :: "string list"

definition append_entry :: "GitignoreEntry \<Rightarrow> parse_state \<Rightarrow> parse_state" where
  "append_entry e st = st\<lparr>gitignore := (gitignore st)\<lparr>entries := entries (gitignore st) @ [e]\<rparr>\<rparr>"

text \<open>The body of the loop over the lines of the file.\<close>

definition parse_line :: "parse_state \<Rightarrow> string \<Rightarrow> parse_state" where
  "parse_line st raw =
     (let line = rstrip_chars [NL] raw in
      if state st = USER then
        (case GENERATED_GUARD_START_REGEX line of
           Some h \<Rightarrow>
             st\<lparr>gitignore := (gitignore st)\<lparr>generated_content_hash := Some h\<rparr>,
                state := GENERATED\<rparr>
         | None \<Rightarrow>
             if startswith line ''#'' then
               append_entry (GitignoreEntry COMMENT (lstrip (drop 1 line))) st
             else if strip line = [] then
               append_entry (GitignoreEntry BLANK []) st
             else
               append_entry (GitignoreEntry PATH line) st)
      else
        (if line = GENERATED_GUARD_END then
           st\<lparr>state := USER,
              gitignore := (gitignore st)\<lparr>generated_content :=
                             join [NL] (generated_content_list st)\<rparr>\<rparr>
         else
           (let st = st\<lparr>generated_content_list := generated_content_list st @ [line]\<rparr> in
            case PARAMETER_HASH_REGEX line of
              Some h \<Rightarrow> st\<lparr>gitignore := (gitignore st)\<lparr>parameters_hash := Some h\<rparr>\<rparr>
            | None \<Rightarrow> st)))"

definition parse_init :: parse_state where
  "parse_init = \<lparr>gitignore = GitignoreFile_init [], state = USER, generated_content_list = []\<rparr>"

definition parse :: "string \<Rightarrow> error + GitignoreFile" where
  "parse file =
     (let st = foldl parse_line parse_init (readlines file) in
      if state st = GENERATED then Inl (GitignoreException ''Generated section never closed'')
      else Inr (gitignore st))"

subsection \<open>Fixtures and reference definitions for the properties\<close>

text \<open>A template provider that answers every request with the same response.\<close>

definition static_provider :: "Response \<Rightarrow> string \<Rightarrow> Response" where
  "static_provider r url = r"

text \<open>
  The lookup of a comment as the specification words it: the value is compared after
  stripping only its leading \<^verbatim>\<open>#\<close> characters and its leading whitespace.
\<close>

definition find_comment_spec :: "string \<Rightarrow> GitignoreFile \<Rightarrow> nat option" where
  "find_comment_spec comment self =
     next_index (\<lambda>e. is_comment e \<and> lstrip (lstrip_chars ''#'' (evalue e)) = comment) 0
       (entries self)"

text \<open>The lines the parser works on: each line of the file without its line feeds at the end.\<close>

definition stripped_lines :: "string \<Rightarrow> string list" where
  "stripped_lines file = map (rstrip_chars [NL]) (readlines file)"

text \<open>
  The entry of one line of the user section, as the specification describes it: a line
  beginning with \<^verbatim>\<open>#\<close> is a comment whose value is the rest without its leading
  whitespace, an empty or all-whitespace line is a blank, any other line is a path kept as
  it is.
\<close>

definition user_line_entry :: "string \<Rightarrow> GitignoreEntry" where
  "user_line_entry line =
     (if line \<noteq> [] \<and> hd line = CHR ''#'' then GitignoreEntry COMMENT (lstrip (tl line))
      else if \<forall>c\<in>set line. isspace c then GitignoreEntry BLANK []
      else GitignoreEntry PATH line)"

text \<open>
  For the properties of sorting: the entries one group is rebuilt into, the group with its
  paths sorted as the rebuilding loop sorts them, the key the groups are sorted by, and the
  shape of a list of groups in which only the last group may lack paths and only the first
  may lack comments.
\<close>

definition sorted_paths :: "bool \<Rightarrow> Group \<Rightarrow> string list" where
  "sorted_paths sort_paths g = (if sort_paths then sort_key lower (paths g) else paths g)"

definition group_entries :: "bool \<Rightarrow> Group \<Rightarrow> GitignoreEntry list" where
  "group_entries sort_paths g =
     map (GitignoreEntry COMMENT) (comments g)
     @ map (GitignoreEntry PATH) (sorted_paths sort_paths g)
     @ [GitignoreEntry BLANK []]"

definition sort_group_paths :: "bool \<Rightarrow> Group \<Rightarrow> Group" where
  "sort_group_paths sort_paths g = Group (comments g) (sorted_paths sort_paths g)"

definition group_key :: "Group \<Rightarrow> string" where
  "group_key g = lower (join [NL] (comments g))"

definition chained :: "Group list \<Rightarrow> bool" where
  "chained gs = (list_all (\<lambda>g. paths g \<noteq> []) (butlast gs) \<and> list_all (\<lambda>g. comments g \<noteq> []) (tl gs))"

definition sort_groups_if :: "bool \<Rightarrow> Group list \<Rightarrow> Group list" where
  "sort_groups_if sg gs = (if sg then sort_key group_key gs else gs)"

text \<open>
  For the round trip: \<^verbatim>\<open>str.split("\n")\<close>, the parameters hash the parser takes from the
  lines of a generated section (that of the last marker line, if any), the entries as the
  parser itself produces them, and the documents the round trip is stated for.
\<close>

fun split_acc :: "string \<Rightarrow> string \<Rightarrow> string list" where
  "split_acc cur [] = [cur]"
| "split_acc cur (c # cs) =
     (if c = NL then cur # split_acc [] cs else split_acc (cur @ [c]) cs)"

definition split_lines :: "string \<Rightarrow> string list" where
  "split_lines s = split_acc [] s"

definition pick_parameters_hash :: "string option \<Rightarrow> string \<Rightarrow> string option" where
  "pick_parameters_hash found line =
     (case PARAMETER_HASH_REGEX line of Some h \<Rightarrow> Some h | None \<Rightarrow> found)"

definition last_parameters_hash :: "string list \<Rightarrow> string option" where
  "last_parameters_hash ls = foldl pick_parameters_hash None ls"

fun canonical_entry :: "GitignoreEntry \<Rightarrow> bool" where
  "canonical_entry (GitignoreEntry COMMENT v) = (NL \<notin> set v \<and> lstrip v = v)"
| "canonical_entry (GitignoreEntry BLANK v) = (v = [])"
| "canonical_entry (GitignoreEntry PATH v) =
     (NL \<notin> set v \<and> \<not> startswith v ''#'' \<and> strip v \<noteq> [])"

definition well_formed :: "GitignoreFile \<Rightarrow> bool" where
  "well_formed d =
     (list_all canonical_entry (entries d)
      \<and> GENERATED_GUARD_END \<notin> set (split_lines (generated_content d))
      \<and> (case generated_content_hash d of None \<Rightarrow> False | Some h \<Rightarrow> NL \<notin> set h)
      \<and> parameters_hash d = last_parameters_hash (split_lines (generated_content d)))"

text \<open>A sample document with a generated section, its hash refreshed, and user entries.\<close>

definition sample_generated_content :: string where
  "sample_generated_content =
     ''# generated'' @ [NL] @ ''### [PARAMETERS_HASH: abc]'' @ [NL] @ [NL] @ ''*.pyc''"

definition sample_document :: GitignoreFile where
  "sample_document =
     \<lparr>entries = [GitignoreEntry BLANK [], GitignoreEntry COMMENT ''Section A'',
                 GitignoreEntry PATH ''foo''],
      generated_content = sample_generated_content,
      generated_content_hash = Some (hash_content sample_generated_content),
      parameters_hash = Some ''abc''\<rparr>"

section \<open>Properties\<close>

subsection \<open>Rendering\<close>

text \<open>
  C9. A document whose \<open>generated_content_hash\<close> is unset still renders: the start guard
  carries the placeholder \<^verbatim>\<open>None\<close> in the hash position and is followed by the generated
  content, the end guard and the user entries, each on its own line.
\<close>

theorem render_unset_hash:
  "generated_content_hash d = None \<Longrightarrow>
   render d = ''### START-GENERATED-CONTENT [HASH: None]'' @ [NL] @ generated_content d @ [NL]
              @ ''### END-GENERATED-CONTENT'' @ [NL]
              @ join [NL] (map str_entry (entries d)) @ [NL]"
  by (simp add: render_def GENERATED_GUARD_START_TEMPLATE_def GENERATED_GUARD_START_PREFIX_def
      GENERATED_GUARD_END_def)

theorem render_unset_hash_witness:
  "generated_content_hash
     (GitignoreFile_init [GitignoreEntry COMMENT ''c'', GitignoreEntry PATH ''a'']) = None
   \<and> render (GitignoreFile_init [GitignoreEntry COMMENT ''c'', GitignoreEntry PATH ''a''])
       = ''### START-GENERATED-CONTENT [HASH: None]'' @ [NL] @ [NL]
         @ ''### END-GENERATED-CONTENT'' @ [NL] @ ''# c'' @ [NL] @ ''a'' @ [NL]"
  using render_unset_hash
    [of "GitignoreFile_init [GitignoreEntry COMMENT ''c'', GitignoreEntry PATH ''a'']"]
  by (simp add: GitignoreFile_init_def str_entry_def is_comment_def)

subsection \<open>Hashing of the generation parameters\<close>

text \<open>
  C10. \<open>hash_parameters\<close> is the content hash of the comma-join of the two lists put
  together, so distinct pairs of lists can have the same digest: \<open>(["a","b"], [])\<close> and
  \<open>(["a"], ["b"])\<close>, or \<open>(["a,b"], [])\<close> and \<open>(["a","b"], [])\<close>. A document whose stored
  parameters hash was computed from the one answers the check for the other with true.
\<close>

theorem hash_parameters_collision:
  "hash_parameters [''a'', ''b''] [] = hash_parameters [''a''] [''b'']
   \<and> ([''a'', ''b''], []) \<noteq> ([''a''], [''b''])
   \<and> hash_parameters [''a,b''] [] = hash_parameters [''a'', ''b''] []
   \<and> ([''a,b''], []) \<noteq> ([''a'', ''b''], [])
   \<and> hash_parameters ts es = hash_content (join '','' (ts @ es))
   \<and> check_generation_parameters [''a''] [''b'']
         (d\<lparr>parameters_hash := Some (hash_parameters [''a'', ''b''] [])\<rparr>)
   \<and> check_generation_parameters [''a,b''] []
         (d\<lparr>parameters_hash := Some (hash_parameters [''a'', ''b''] [])\<rparr>)"
  by (simp add: hash_parameters_def check_generation_parameters_def)

subsection \<open>Refreshing\<close>

text \<open>
  C7. \<open>refresh_generated_content\<close> never changes the entries or the generated-content
  hash. When the provider does not answer with status 200 it raises and the document is
  what it was; when it does, only \<open>generated_content\<close> and \<open>parameters_hash\<close> are replaced.
\<close>

theorem refresh_frame:
  "entries (snd (refresh_generated_content http_get tokens extra_paths d)) = entries d
   \<and> generated_content_hash (snd (refresh_generated_content http_get tokens extra_paths d))
       = generated_content_hash d
   \<and> (status_code (http_get (GITIGNORE_API_URL @ join '','' tokens)) \<noteq> 200 \<longrightarrow>
        refresh_generated_content http_get tokens extra_paths d
        = (Inl (GitignoreException (''Error status code returned from '' @ GITIGNORE_API_URL)), d))
   \<and> (status_code (http_get (GITIGNORE_API_URL @ join '','' tokens)) = 200 \<longrightarrow>
        refresh_generated_content http_get tokens extra_paths d
        = (Inr (), d\<lparr>generated_content :=
                        generated_content
                          (snd (refresh_generated_content http_get tokens extra_paths d)),
                      parameters_hash := Some (hash_parameters tokens extra_paths)\<rparr>))"
  by (simp add: refresh_generated_content_def Let_def)

theorem refresh_frame_witness:
  "status_code (static_provider \<lparr>status_code = 404, response_text = []\<rparr>
       (GITIGNORE_API_URL @ join '','' [''Python''])) \<noteq> 200
   \<and> refresh_generated_content (static_provider \<lparr>status_code = 404, response_text = []\<rparr>)
         [''Python''] [''/my/extra/path''] (GitignoreFile_init [GitignoreEntry PATH ''x''])
       = (Inl (GitignoreException (''Error status code returned from '' @ GITIGNORE_API_URL)),
          GitignoreFile_init [GitignoreEntry PATH ''x''])
   \<and> status_code (static_provider \<lparr>status_code = 200, response_text = ''*.pyc''\<rparr>
       (GITIGNORE_API_URL @ join '','' [''Python''])) = 200
   \<and> entries (snd (refresh_generated_content
         (static_provider \<lparr>status_code = 200, response_text = ''*.pyc''\<rparr>)
         [''Python''] [''/my/extra/path''] (GitignoreFile_init [GitignoreEntry PATH ''x''])))
       = [GitignoreEntry PATH ''x'']
   \<and> generated_content_hash (snd (refresh_generated_content
         (static_provider \<lparr>status_code = 200, response_text = ''*.pyc''\<rparr>)
         [''Python''] [''/my/extra/path''] (GitignoreFile_init [GitignoreEntry PATH ''x''])))
       = None"
  using
    refresh_frame [of "static_provider \<lparr>status_code = 404, response_text = []\<rparr>"
      "[''Python'']" "[''/my/extra/path'']" "GitignoreFile_init [GitignoreEntry PATH ''x'']"]
    refresh_frame [of "static_provider \<lparr>status_code = 200, response_text = ''*.pyc''\<rparr>"
      "[''Python'']" "[''/my/extra/path'']" "GitignoreFile_init [GitignoreEntry PATH ''x'']"]
  by (simp add: static_provider_def GitignoreFile_init_def)

subsection \<open>Searching the entries\<close>

lemma next_index_takeWhile:
  "next_index p k xs =
     (if \<exists>x\<in>set xs. p x then Some (k + length (takeWhile (\<lambda>x. \<not> p x) xs)) else None)"
  by (induction xs arbitrary: k) auto

lemma next_index_None: "next_index p k xs = None \<longleftrightarrow> (\<forall>x\<in>set xs. \<not> p x)"
  by (simp add: next_index_takeWhile)

lemma next_index_Some_from:
  "next_index p k xs = Some i \<Longrightarrow>
     k \<le> i \<and> i - k < length xs \<and> p (xs ! (i - k)) \<and> (\<forall>j<i - k. \<not> p (xs ! j))"
proof (induction xs arbitrary: k)
  case Nil
  then show ?case by simp
next
  case (Cons x xs)
  show ?case
  proof (cases "p x")
    case True
    with Cons.prems show ?thesis by simp
  next
    case False
    with Cons.prems have rec: "next_index p (Suc k) xs = Some i" by simp
    from Cons.IH [OF rec] have le: "Suc k \<le> i" and lt: "i - Suc k < length xs"
      and hit: "p (xs ! (i - Suc k))" and first: "\<forall>j<i - Suc k. \<not> p (xs ! j)"
      by simp_all
    from le have eq: "i - k = Suc (i - Suc k)" by simp
    have "\<not> p ((x # xs) ! j)" if "j < i - k" for j
      using that False first eq by (cases j) simp_all
    with le lt hit eq show ?thesis by simp
  qed
qed

lemma next_index_Some:
  "next_index p 0 xs = Some i \<Longrightarrow>
     i < length xs \<and> p (xs ! i) \<and> (\<forall>j<i. \<not> p (xs ! j))"
  using next_index_Some_from [of p 0 xs i] by simp

text \<open>
  C8 (as the code has it). \<open>find_comment\<close> returns the index of the first comment entry
  whose value equals the text after its leading \<^verbatim>\<open>#\<close> characters have been stripped and
  then the whitespace at both of its ends; it returns \<open>None\<close> when no entry is such a comment.
\<close>

theorem find_comment_first:
  "(find_comment t d = Some i \<longrightarrow>
      i < length (entries d)
      \<and> is_comment (entries d ! i)
      \<and> strip (lstrip_chars ''#'' (evalue (entries d ! i))) = t
      \<and> (\<forall>j<i. \<not> (is_comment (entries d ! j)
                   \<and> strip (lstrip_chars ''#'' (evalue (entries d ! j))) = t)))
   \<and> (find_comment t d = None \<longrightarrow>
      (\<forall>e\<in>set (entries d). \<not> (is_comment e \<and> strip (lstrip_chars ''#'' (evalue e)) = t)))"
  unfolding find_comment_def
  using next_index_Some [of "\<lambda>e. is_comment e \<and> strip (lstrip_chars ''#'' (evalue e)) = t" "entries d" i]
  by (simp add: next_index_None)

theorem find_comment_first_witness:
  "find_comment ''foo'' (GitignoreFile_init
       [GitignoreEntry PATH ''foo'', GitignoreEntry COMMENT ''bar'',
        GitignoreEntry COMMENT ''## foo  '', GitignoreEntry COMMENT ''foo'']) = Some 2
   \<and> find_comment ''baz'' (GitignoreFile_init
       [GitignoreEntry PATH ''foo'', GitignoreEntry COMMENT ''bar'',
        GitignoreEntry COMMENT ''## foo  '', GitignoreEntry COMMENT ''foo'']) = None
   \<and> strip (lstrip_chars ''#'' ''## foo  '') = ''foo''
   \<and> GitignoreEntry COMMENT ''bar'' \<in> set (entries (GitignoreFile_init
       [GitignoreEntry PATH ''foo'', GitignoreEntry COMMENT ''bar'',
        GitignoreEntry COMMENT ''## foo  '', GitignoreEntry COMMENT ''foo'']))
   \<and> strip (lstrip_chars ''#'' ''bar'') \<noteq> ''baz''"
  using find_comment_first [of "''foo''" "GitignoreFile_init
       [GitignoreEntry PATH ''foo'', GitignoreEntry COMMENT ''bar'',
        GitignoreEntry COMMENT ''## foo  '', GitignoreEntry COMMENT ''foo'']" 2]
    find_comment_first [of "''baz''" "GitignoreFile_init
       [GitignoreEntry PATH ''foo'', GitignoreEntry COMMENT ''bar'',
        GitignoreEntry COMMENT ''## foo  '', GitignoreEntry COMMENT ''foo'']" 0]
  by (simp add: find_comment_def GitignoreFile_init_def is_comment_def
      strip_def lstrip_def rstrip_def lstrip_chars_def isspace_def)

text \<open>
  C8 as stated compares after stripping at the front only. The comment \<^verbatim>\<open>"foo "\<close> is found
  by the code for the text \<^verbatim>\<open>"foo"\<close>, and is not found by that reading.
\<close>

theorem find_comment_counterexample:
  "find_comment ''foo'' (GitignoreFile_init [GitignoreEntry COMMENT ''foo '']) = Some 0
   \<and> find_comment_spec ''foo'' (GitignoreFile_init [GitignoreEntry COMMENT ''foo '']) = None"
  by (simp add: find_comment_def find_comment_spec_def GitignoreFile_init_def is_comment_def
      strip_def lstrip_def rstrip_def lstrip_chars_def isspace_def)

subsection \<open>Checking the generation parameters\<close>

text \<open>
  C4 (as the code has it). After a refresh that the provider answered with status 200, the
  check of the same tokens and extra paths is true; the check of any other pair is true
  exactly when its parameters hash equals the stored one, which is so whenever the comma-join
  of its tokens followed by its extra paths is the same string.
\<close>

theorem check_after_refresh:
  "status_code (http_get (GITIGNORE_API_URL @ join '','' tokens)) = 200 \<Longrightarrow>
   fst (refresh_generated_content http_get tokens extra_paths d) = Inr ()
   \<and> check_generation_parameters tokens extra_paths
        (snd (refresh_generated_content http_get tokens extra_paths d))
   \<and> (\<forall>tokens' extra_paths'.
        check_generation_parameters tokens' extra_paths'
          (snd (refresh_generated_content http_get tokens extra_paths d))
        = (hash_parameters tokens' extra_paths' = hash_parameters tokens extra_paths))
   \<and> (\<forall>tokens' extra_paths'.
        join '','' (tokens' @ extra_paths') = join '','' (tokens @ extra_paths) \<longrightarrow>
        check_generation_parameters tokens' extra_paths'
          (snd (refresh_generated_content http_get tokens extra_paths d)))"
  by (auto simp add: refresh_generated_content_def Let_def check_generation_parameters_def
      hash_parameters_def)

theorem check_after_refresh_witness:
  "status_code (static_provider \<lparr>status_code = 200, response_text = ''*.pyc''\<rparr>
      (GITIGNORE_API_URL @ join '','' [''a'', ''b''])) = 200
   \<and> check_generation_parameters [''a'', ''b''] []
        (snd (refresh_generated_content
                (static_provider \<lparr>status_code = 200, response_text = ''*.pyc''\<rparr>)
                [''a'', ''b''] [] (GitignoreFile_init [])))
   \<and> join '','' ([''a,b''] @ []) = join '','' ([''a'', ''b''] @ [])
   \<and> check_generation_parameters [''a,b''] []
        (snd (refresh_generated_content
                (static_provider \<lparr>status_code = 200, response_text = ''*.pyc''\<rparr>)
                [''a'', ''b''] [] (GitignoreFile_init [])))"
  using check_after_refresh [of "static_provider \<lparr>status_code = 200, response_text = ''*.pyc''\<rparr>"
      "[''a'', ''b'']" "[]" "GitignoreFile_init []"]
  by (simp add: static_provider_def hash_parameters_def)

text \<open>
  C4 as stated says that a pair differing in either argument is rejected. After a refresh
  with \<open>(["a","b"], [])\<close> the different pair \<open>(["a"], ["b"])\<close> is accepted.
\<close>

theorem check_after_refresh_counterexample:
  "([''a''], [''b'']) \<noteq> ([''a'', ''b''], [])
   \<and> check_generation_parameters [''a''] [''b'']
        (snd (refresh_generated_content
                (static_provider \<lparr>status_code = 200, response_text = ''*.pyc''\<rparr>)
                [''a'', ''b''] [] (GitignoreFile_init [])))"
  by (simp add: refresh_generated_content_def Let_def check_generation_parameters_def
      hash_parameters_def static_provider_def)

subsection \<open>Removing a path\<close>

lemma del_index_first_match:
  assumes "next_index p 0 xs = Some i"
  shows "filter (\<lambda>x. \<not> p x) (del_index i xs) = filter (\<lambda>x. \<not> p x) xs"
    and "Suc (length (filter p (del_index i xs))) = length (filter p xs)"
proof -
  from next_index_Some [OF assms] have lt: "i < length xs" and hit: "p (xs ! i)" by simp_all
  have split: "xs = take i xs @ xs ! i # drop (Suc i) xs"
    using lt by (simp add: id_take_nth_drop)
  have f1: "filter (\<lambda>x. \<not> p x) xs
      = filter (\<lambda>x. \<not> p x) (take i xs) @ filter (\<lambda>x. \<not> p x) (drop (Suc i) xs)"
    by (subst split) (simp add: hit)
  have f2: "filter p xs = filter p (take i xs) @ xs ! i # filter p (drop (Suc i) xs)"
    by (subst split) (simp add: hit)
  show "filter (\<lambda>x. \<not> p x) (del_index i xs) = filter (\<lambda>x. \<not> p x) xs"
    by (simp add: del_index_def f1)
  show "Suc (length (filter p (del_index i xs))) = length (filter p xs)"
    by (simp add: del_index_def f2)
qed

lemma remove_path_loop_filter:
  "remove_path_loop path es removed =
     (filter (\<lambda>e. \<not> (is_path e \<and> evalue e = path)) es,
      removed + length (filter (\<lambda>e. is_path e \<and> evalue e = path) es))"
proof (induction path es removed rule: remove_path_loop.induct)
  case (1 path es removed)
  show ?case
  proof (cases "next_index (\<lambda>e. is_path e \<and> evalue e = path) 0 es")
    case None
    then have no: "\<forall>e\<in>set es. \<not> (is_path e \<and> evalue e = path)"
      by (simp add: next_index_None)
    then have "filter (\<lambda>e. \<not> (is_path e \<and> evalue e = path)) es = es"
      and "filter (\<lambda>e. is_path e \<and> evalue e = path) es = []"
      by (simp_all add: filter_empty_conv)
    with None show ?thesis
      by (subst remove_path_loop.simps) simp
  next
    case (Some index)
    from "1.IH" [OF Some] del_index_first_match [OF Some] Some show ?thesis
      by (subst remove_path_loop.simps) simp
  qed
qed

text \<open>
  C2. When at least one entry is a path with exactly the given value, \<open>remove_path\<close>
  deletes every such entry, keeps all the others in their order, and returns normally. When
  no entry is, it raises the \<^verbatim>\<open>ValueError\<close> and the entries are what they were. The witness
  is the scenario of the path \<^verbatim>\<open>"a"\<close> occurring three times: the first call leaves none, the
  second call fails.
\<close>

theorem remove_path_all_or_error:
  "remove_path p d =
     (if \<exists>e\<in>set (entries d). is_path e \<and> evalue e = p
      then (Inr (), d\<lparr>entries := filter (\<lambda>e. \<not> (is_path e \<and> evalue e = p)) (entries d)\<rparr>)
      else (Inl (ValueError ([CHR 0x22] @ p @ [CHR 0x22] @ '' not in GitignoreFile'')), d))"
proof (cases "\<exists>e\<in>set (entries d). is_path e \<and> evalue e = p")
  case True
  then have "filter (\<lambda>e. is_path e \<and> evalue e = p) (entries d) \<noteq> []"
    by (simp add: filter_empty_conv)
  with True show ?thesis
    by (simp add: remove_path_def remove_path_loop_filter)
next
  case False
  then have "filter (\<lambda>e. is_path e \<and> evalue e = p) (entries d) = []"
    and "filter (\<lambda>e. \<not> (is_path e \<and> evalue e = p)) (entries d) = entries d"
    by (simp_all add: filter_empty_conv)
  with False show ?thesis
    by (simp add: remove_path_def remove_path_loop_filter)
qed

theorem remove_path_all_or_error_witness:
  "(\<exists>e\<in>set (entries (GitignoreFile_init
        [GitignoreEntry PATH ''a'', GitignoreEntry COMMENT ''a'', GitignoreEntry PATH ''a'',
         GitignoreEntry PATH ''b'', GitignoreEntry PATH ''a''])). is_path e \<and> evalue e = ''a'')
   \<and> remove_path ''a'' (GitignoreFile_init
        [GitignoreEntry PATH ''a'', GitignoreEntry COMMENT ''a'', GitignoreEntry PATH ''a'',
         GitignoreEntry PATH ''b'', GitignoreEntry PATH ''a''])
       = (Inr (), GitignoreFile_init [GitignoreEntry COMMENT ''a'', GitignoreEntry PATH ''b''])
   \<and> \<not> (\<exists>e\<in>set (entries (GitignoreFile_init
        [GitignoreEntry COMMENT ''a'', GitignoreEntry PATH ''b''])). is_path e \<and> evalue e = ''a'')
   \<and> remove_path ''a'' (GitignoreFile_init [GitignoreEntry COMMENT ''a'', GitignoreEntry PATH ''b''])
       = (Inl (ValueError ([CHR 0x22] @ ''a'' @ [CHR 0x22] @ '' not in GitignoreFile'')),
          GitignoreFile_init [GitignoreEntry COMMENT ''a'', GitignoreEntry PATH ''b''])"
  using remove_path_all_or_error [of "''a''" "GitignoreFile_init
        [GitignoreEntry PATH ''a'', GitignoreEntry COMMENT ''a'', GitignoreEntry PATH ''a'',
         GitignoreEntry PATH ''b'', GitignoreEntry PATH ''a'']"]
    remove_path_all_or_error [of "''a''" "GitignoreFile_init
        [GitignoreEntry COMMENT ''a'', GitignoreEntry PATH ''b'']"]
  by (simp add: GitignoreFile_init_def is_path_def)

subsection \<open>The two-section scenario\<close>

text \<open>
  C6. Parsing \<^verbatim>\<open>"# Section A\nfoo\nbar\n# Section B\nbaz\n"\<close> and sorting with the default
  flags (paths sorted, groups not) gives two groups in order, \<open>(["Section A"], ["bar","foo"])\<close>
  and \<open>(["Section B"], ["baz"])\<close>: the entries are a leading blank, the first comment with
  its paths sorted, one blank, the second comment with its path, and no blank at the end.
\<close>

theorem scenario_two_sections:
  "parse (''# Section A'' @ [NL] @ ''foo'' @ [NL] @ ''bar'' @ [NL] @ ''# Section B'' @ [NL]
           @ ''baz'' @ [NL])
   = Inr (GitignoreFile_init
       [GitignoreEntry COMMENT ''Section A'', GitignoreEntry PATH ''foo'',
        GitignoreEntry PATH ''bar'', GitignoreEntry COMMENT ''Section B'',
        GitignoreEntry PATH ''baz''])
   \<and> foldl group_step [Group [] []]
       [GitignoreEntry COMMENT ''Section A'', GitignoreEntry PATH ''foo'',
        GitignoreEntry PATH ''bar'', GitignoreEntry COMMENT ''Section B'',
        GitignoreEntry PATH ''baz'']
     = [Group [''Section A''] [''foo'', ''bar''], Group [''Section B''] [''baz'']]
   \<and> sort_gitignore True False (GitignoreFile_init
       [GitignoreEntry COMMENT ''Section A'', GitignoreEntry PATH ''foo'',
        GitignoreEntry PATH ''bar'', GitignoreEntry COMMENT ''Section B'',
        GitignoreEntry PATH ''baz''])
     = GitignoreFile_init
       [GitignoreEntry BLANK [], GitignoreEntry COMMENT ''Section A'',
        GitignoreEntry PATH ''bar'', GitignoreEntry PATH ''foo'', GitignoreEntry BLANK [],
        GitignoreEntry COMMENT ''Section B'', GitignoreEntry PATH ''baz'']
   \<and> foldl group_step [Group [] []]
       [GitignoreEntry BLANK [], GitignoreEntry COMMENT ''Section A'',
        GitignoreEntry PATH ''bar'', GitignoreEntry PATH ''foo'', GitignoreEntry BLANK [],
        GitignoreEntry COMMENT ''Section B'', GitignoreEntry PATH ''baz'']
     = [Group [''Section A''] [''bar'', ''foo''], Group [''Section B''] [''baz'']]
   \<and> join [NL] (map str_entry
       [GitignoreEntry BLANK [], GitignoreEntry COMMENT ''Section A'',
        GitignoreEntry PATH ''bar'', GitignoreEntry PATH ''foo'', GitignoreEntry BLANK [],
        GitignoreEntry COMMENT ''Section B'', GitignoreEntry PATH ''baz''])
     = [NL] @ ''# Section A'' @ [NL] @ ''bar'' @ [NL] @ ''foo'' @ [NL] @ [NL]
       @ ''# Section B'' @ [NL] @ ''baz''"
  by code_simp

subsection \<open>Parsing: the unclosed section and the file without guards\<close>

lemma end_guard_not_start: "GENERATED_GUARD_START_REGEX GENERATED_GUARD_END = None"
  by (simp add: GENERATED_GUARD_START_REGEX_def re_match_bracket_def startswith_def
      GENERATED_GUARD_END_def GENERATED_GUARD_START_PREFIX_def)

lemma strip_empty_iff: "strip s = [] \<longleftrightarrow> (\<forall>c\<in>set s. isspace c)"
proof -
  have "strip s = [] \<longleftrightarrow> (\<forall>c\<in>set (dropWhile isspace s). isspace c)"
    by (simp add: strip_def rstrip_def lstrip_def dropWhile_eq_Nil_conv)
  also have "\<dots> \<longleftrightarrow> dropWhile isspace s = []"
  proof
    assume all: "\<forall>c\<in>set (dropWhile isspace s). isspace c"
    show "dropWhile isspace s = []"
    proof (rule ccontr)
      assume ne: "dropWhile isspace s \<noteq> []"
      then have "\<not> isspace (hd (dropWhile isspace s))" by (rule hd_dropWhile)
      moreover from ne have "hd (dropWhile isspace s) \<in> set (dropWhile isspace s)" by simp
      ultimately show False using all by blast
    qed
  qed (auto dest: set_dropWhileD)
  also have "\<dots> \<longleftrightarrow> (\<forall>c\<in>set s. isspace c)"
    by (simp add: dropWhile_eq_Nil_conv)
  finally show ?thesis .
qed

lemma startswith_hash: "startswith s ''#'' \<longleftrightarrow> s \<noteq> [] \<and> hd s = CHR ''#''"
  by (cases s) (simp_all add: startswith_def)

lemma parse_line_user:
  "state st = USER \<Longrightarrow> GENERATED_GUARD_START_REGEX (rstrip_chars [NL] raw) = None \<Longrightarrow>
   parse_line st raw = append_entry (user_line_entry (rstrip_chars [NL] raw)) st"
  by (simp add: parse_line_def Let_def user_line_entry_def strip_empty_iff startswith_hash
      drop_Suc)

lemma parse_line_generated_state:
  "state st = GENERATED \<Longrightarrow> rstrip_chars [NL] raw \<noteq> GENERATED_GUARD_END \<Longrightarrow>
   state (parse_line st raw) = GENERATED"
  by (simp add: parse_line_def Let_def split: option.splits)

lemma parse_line_start_state:
  "GENERATED_GUARD_START_REGEX (rstrip_chars [NL] raw) \<noteq> None \<Longrightarrow>
   state (parse_line st raw) = GENERATED"
proof (cases "state st")
  case USER
  assume "GENERATED_GUARD_START_REGEX (rstrip_chars [NL] raw) \<noteq> None"
  with USER show ?thesis by (auto simp: parse_line_def Let_def)
next
  case GENERATED
  assume m: "GENERATED_GUARD_START_REGEX (rstrip_chars [NL] raw) \<noteq> None"
  then have "rstrip_chars [NL] raw \<noteq> GENERATED_GUARD_END"
    using end_guard_not_start by auto
  with GENERATED show ?thesis by (rule parse_line_generated_state)
qed

lemma foldl_generated_state:
  "state st = GENERATED \<Longrightarrow> \<forall>raw\<in>set ls. rstrip_chars [NL] raw \<noteq> GENERATED_GUARD_END \<Longrightarrow>
   state (foldl parse_line st ls) = GENERATED"
  by (induction ls arbitrary: st) (simp_all add: parse_line_generated_state)

lemma foldl_user_entries:
  "state st = USER \<Longrightarrow> \<forall>raw\<in>set ls. GENERATED_GUARD_START_REGEX (rstrip_chars [NL] raw) = None \<Longrightarrow>
   foldl parse_line st ls =
     st\<lparr>gitignore := (gitignore st)\<lparr>entries := entries (gitignore st)
         @ map (\<lambda>raw. user_line_entry (rstrip_chars [NL] raw)) ls\<rparr>\<rparr>"
proof (induction ls arbitrary: st)
  case Nil
  then show ?case by simp
next
  case (Cons raw ls)
  from Cons.prems have step: "parse_line st raw = append_entry (user_line_entry (rstrip_chars [NL] raw)) st"
    by (simp add: parse_line_user)
  have u: "state (append_entry (user_line_entry (rstrip_chars [NL] raw)) st) = USER"
    using Cons.prems(1) by (simp add: append_entry_def)
  from Cons.prems(2) have rest: "\<forall>raw\<in>set ls. GENERATED_GUARD_START_REGEX (rstrip_chars [NL] raw) = None"
    by simp
  show ?case
    by (simp add: step Cons.IH [OF u rest]) (simp add: append_entry_def)
qed

text \<open>
  C3. When some line of the input matches the start guard and no later line is exactly the
  end guard, \<open>parse\<close> fails with the exception \<^verbatim>\<open>Generated section never closed\<close> and returns
  no document. When no line matches the start guard, \<open>parse\<close> succeeds, every line becomes
  an entry of the user section, the generated content is empty and both hashes are unset.
\<close>

theorem parse_unclosed_or_unguarded:
  "(i < length (stripped_lines file)
      \<and> GENERATED_GUARD_START_REGEX (stripped_lines file ! i) \<noteq> None
      \<and> (\<forall>j. i < j \<and> j < length (stripped_lines file)
             \<longrightarrow> stripped_lines file ! j \<noteq> GENERATED_GUARD_END)
    \<longrightarrow> parse file = Inl (GitignoreException ''Generated section never closed''))
   \<and> ((\<forall>line\<in>set (stripped_lines file). GENERATED_GUARD_START_REGEX line = None)
    \<longrightarrow> parse file = Inr (GitignoreFile_init (map user_line_entry (stripped_lines file))))"
proof (intro conjI impI)
  assume a: "i < length (stripped_lines file)
      \<and> GENERATED_GUARD_START_REGEX (stripped_lines file ! i) \<noteq> None
      \<and> (\<forall>j. i < j \<and> j < length (stripped_lines file)
             \<longrightarrow> stripped_lines file ! j \<noteq> GENERATED_GUARD_END)"
  define ls where "ls = readlines file"
  from a have lt: "i < length ls" by (simp add: stripped_lines_def ls_def)
  from a have "GENERATED_GUARD_START_REGEX (stripped_lines file ! i) \<noteq> None" by blast
  with lt have m: "GENERATED_GUARD_START_REGEX (rstrip_chars [NL] (ls ! i)) \<noteq> None"
    by (simp add: stripped_lines_def ls_def)
  have later: "\<forall>raw\<in>set (drop (Suc i) ls). rstrip_chars [NL] raw \<noteq> GENERATED_GUARD_END"
  proof
    fix raw assume "raw \<in> set (drop (Suc i) ls)"
    then obtain k where k: "k < length ls - Suc i" and raw: "raw = ls ! (Suc i + k)"
      by (auto simp: in_set_conv_nth)
    from a k have "stripped_lines file ! (Suc i + k) \<noteq> GENERATED_GUARD_END"
      by (simp add: stripped_lines_def ls_def)
    with k raw show "rstrip_chars [NL] raw \<noteq> GENERATED_GUARD_END"
      by (simp add: stripped_lines_def ls_def)
  qed
  have split: "ls = take i ls @ ls ! i # drop (Suc i) ls"
    using lt by (simp add: id_take_nth_drop)
  have "foldl parse_line parse_init ls
      = foldl parse_line (parse_line (foldl parse_line parse_init (take i ls)) (ls ! i))
          (drop (Suc i) ls)"
    by (subst split) simp
  moreover have "state (parse_line (foldl parse_line parse_init (take i ls)) (ls ! i)) = GENERATED"
    using m by (rule parse_line_start_state)
  ultimately have "state (foldl parse_line parse_init ls) = GENERATED"
    using later by (simp add: foldl_generated_state)
  then show "parse file = Inl (GitignoreException ''Generated section never closed'')"
    by (simp add: parse_def ls_def)
next
  assume "\<forall>line\<in>set (stripped_lines file). GENERATED_GUARD_START_REGEX line = None"
  then have none: "\<forall>raw\<in>set (readlines file).
      GENERATED_GUARD_START_REGEX (rstrip_chars [NL] raw) = None"
    by (simp add: stripped_lines_def)
  have "state parse_init = USER" by (simp add: parse_init_def)
  from foldl_user_entries [OF this none]
  show "parse file = Inr (GitignoreFile_init (map user_line_entry (stripped_lines file)))"
    by (simp add: parse_def parse_init_def GitignoreFile_init_def stripped_lines_def comp_def)
qed

theorem parse_unclosed_or_unguarded_witness:
  "1 < length (stripped_lines
        (''foo'' @ [NL] @ ''### START-GENERATED-CONTENT [HASH: abc]'' @ [NL] @ ''bar'' @ [NL]))
   \<and> GENERATED_GUARD_START_REGEX (stripped_lines
        (''foo'' @ [NL] @ ''### START-GENERATED-CONTENT [HASH: abc]'' @ [NL] @ ''bar'' @ [NL]) ! 1)
       \<noteq> None
   \<and> length (stripped_lines
        (''foo'' @ [NL] @ ''### START-GENERATED-CONTENT [HASH: abc]'' @ [NL] @ ''bar'' @ [NL])) = 3
   \<and> stripped_lines
        (''foo'' @ [NL] @ ''### START-GENERATED-CONTENT [HASH: abc]'' @ [NL] @ ''bar'' @ [NL]) ! 2
       \<noteq> GENERATED_GUARD_END
   \<and> parse (''foo'' @ [NL] @ ''### START-GENERATED-CONTENT [HASH: abc]'' @ [NL] @ ''bar'' @ [NL])
       = Inl (GitignoreException ''Generated section never closed'')
   \<and> list_all (\<lambda>line. GENERATED_GUARD_START_REGEX line = None)
         (stripped_lines (''# c'' @ [NL] @ [NL] @ ''p''))
   \<and> parse (''# c'' @ [NL] @ [NL] @ ''p'')
       = Inr (GitignoreFile_init
           [GitignoreEntry COMMENT ''c'', GitignoreEntry BLANK [], GitignoreEntry PATH ''p''])"
proof -
  let ?a = "''foo'' @ [NL] @ ''### START-GENERATED-CONTENT [HASH: abc]'' @ [NL] @ ''bar'' @ [NL]"
  let ?b = "''# c'' @ [NL] @ [NL] @ ''p''"
  have la: "stripped_lines ?a = [''foo'', ''### START-GENERATED-CONTENT [HASH: abc]'', ''bar'']"
    by code_simp
  have lb: "stripped_lines ?b = [''# c'', [], ''p'']"
    by code_simp
  have h1: "1 < length (stripped_lines ?a)" unfolding la by simp
  have h2: "GENERATED_GUARD_START_REGEX (stripped_lines ?a ! 1) \<noteq> None"
    unfolding la by code_simp
  have h3: "\<forall>j. 1 < j \<and> j < length (stripped_lines ?a)
      \<longrightarrow> stripped_lines ?a ! j \<noteq> GENERATED_GUARD_END"
  proof (intro allI impI)
    fix j assume "1 < j \<and> j < length (stripped_lines ?a)"
    then have "j = 2" unfolding la by simp
    then show "stripped_lines ?a ! j \<noteq> GENERATED_GUARD_END"
      unfolding la by (simp add: GENERATED_GUARD_END_def)
  qed
  have h4: "\<forall>line\<in>set (stripped_lines ?b). GENERATED_GUARD_START_REGEX line = None"
    unfolding lb by code_simp
  have e: "map user_line_entry [''# c'', [], ''p'']
      = [GitignoreEntry COMMENT ''c'', GitignoreEntry BLANK [], GitignoreEntry PATH ''p'']"
    by code_simp
  from parse_unclosed_or_unguarded [of 1 ?a] h1 h2 h3
  have pa: "parse ?a = Inl (GitignoreException ''Generated section never closed'')" by blast
  from parse_unclosed_or_unguarded [of 0 ?b] h4
  have "parse ?b = Inr (GitignoreFile_init (map user_line_entry (stripped_lines ?b)))" by blast
  then have pb: "parse ?b = Inr (GitignoreFile_init
      [GitignoreEntry COMMENT ''c'', GitignoreEntry BLANK [], GitignoreEntry PATH ''p''])"
    by (simp only: lb e)
  have h5: "length (stripped_lines ?a) = 3" unfolding la by simp
  have h6: "stripped_lines ?a ! 2 \<noteq> GENERATED_GUARD_END"
    unfolding la by (simp add: GENERATED_GUARD_END_def)
  have h7: "list_all (\<lambda>line. GENERATED_GUARD_START_REGEX line = None) (stripped_lines ?b)"
    using h4 by (simp only: list_all_iff)
  from h1 h2 h5 h6 h7 pa pb show ?thesis by blast
qed

subsection \<open>Sorting\<close>

lemma list_insert_end: "list_insert (int (length xs)) x xs = xs @ [x]"
  by (simp add: list_insert_def)

lemma add_comment_end:
  "add_comment c None self = self\<lparr>entries := entries self @ [GitignoreEntry COMMENT c]\<rparr>"
  by (simp add: add_comment_def insert_entry_def list_insert_end)

lemma add_path_end:
  "add_path p None self = self\<lparr>entries := entries self @ [GitignoreEntry PATH p]\<rparr>"
  by (simp add: add_path_def insert_entry_def list_insert_end)

lemma add_blank_end:
  "add_blank None self = self\<lparr>entries := entries self @ [GitignoreEntry BLANK []]\<rparr>"
  by (simp add: add_blank_def insert_entry_def list_insert_end)

lemma foldl_add_comment:
  "foldl (\<lambda>s c. add_comment c None s) self cs
     = self\<lparr>entries := entries self @ map (GitignoreEntry COMMENT) cs\<rparr>"
  by (induction cs arbitrary: self) (simp_all add: add_comment_end)

lemma foldl_add_path:
  "foldl (\<lambda>s p. add_path p None s) self ps
     = self\<lparr>entries := entries self @ map (GitignoreEntry PATH) ps\<rparr>"
  by (induction ps arbitrary: self) (simp_all add: add_path_end)

lemma emit_group_entries:
  "emit_group sp self g = self\<lparr>entries := entries self @ group_entries sp g\<rparr>"
  by (simp add: emit_group_def Let_def foldl_add_comment foldl_add_path add_blank_end
      group_entries_def sorted_paths_def)

lemma foldl_emit_group:
  "foldl (emit_group sp) self gs
     = self\<lparr>entries := entries self @ concat (map (group_entries sp) gs)\<rparr>"
  by (induction gs arbitrary: self) (simp_all add: emit_group_entries)

lemma group_entries_last: "group_entries sp g = butlast (group_entries sp g) @ [GitignoreEntry BLANK []]"
  by (simp add: group_entries_def butlast_append)

lemma concat_group_entries_snoc:
  "gs \<noteq> [] \<Longrightarrow> \<exists>es. concat (map (group_entries sp) gs) = es @ [GitignoreEntry BLANK []]"
proof (induction gs rule: rev_induct)
  case Nil
  then show ?case by simp
next
  case (snoc g gs)
  have "concat (map (group_entries sp) (gs @ [g]))
      = (concat (map (group_entries sp) gs) @ butlast (group_entries sp g)) @ [GitignoreEntry BLANK []]"
    using group_entries_last [of sp g] by simp
  then show ?case by blast
qed

lemma sort_gitignore_entries:
  assumes "foldl group_step [Group [] []] (entries d) \<noteq> []"
  shows "sort_gitignore sp sg d =
     d\<lparr>entries := GitignoreEntry BLANK [] #
        butlast (concat (map (group_entries sp)
          (sort_groups_if sg (foldl group_step [Group [] []] (entries d)))))\<rparr>"
proof -
  let ?gs = "sort_groups_if sg (foldl group_step [Group [] []] (entries d))"
  have ne: "?gs \<noteq> []"
    using assms by (auto simp: sort_groups_if_def dest: arg_cong [where f = length])
  from concat_group_entries_snoc [OF ne, of sp]
  obtain es where es: "concat (map (group_entries sp) ?gs) = es @ [GitignoreEntry BLANK []]"
    by blast
  have key: "(\<lambda>g. lower (join [NL] (comments g))) = group_key"
    by (simp add: group_key_def fun_eq_iff)
  have gs_eq: "(if sg then sort_key (\<lambda>g. lower (join [NL] (comments g)))
                  (foldl group_step [Group [] []] (entries d))
               else foldl group_step [Group [] []] (entries d)) = ?gs"
    by (simp add: sort_groups_if_def key)
  have emitted: "foldl (emit_group sp) (add_blank None (d\<lparr>entries := []\<rparr>)) ?gs
      = d\<lparr>entries := GitignoreEntry BLANK [] # es @ [GitignoreEntry BLANK []]\<rparr>"
    by (simp add: foldl_emit_group add_blank_end es)
  have "sort_gitignore sp sg d = d\<lparr>entries := GitignoreEntry BLANK [] # es\<rparr>"
    unfolding sort_gitignore_def Let_def gs_eq emitted
    by (simp add: is_blank_def butlast_append)
  then show ?thesis by (simp add: es)
qed

lemma group_step_path:
  "group_step (acc @ [Group cs ps]) (GitignoreEntry PATH p) = acc @ [Group cs (ps @ [p])]"
  by (simp add: group_step_def is_path_def)

lemma group_step_comment:
  "group_step (acc @ [Group cs ps]) (GitignoreEntry COMMENT c)
     = (if ps \<noteq> [] then acc @ [Group cs ps, Group [c] []] else acc @ [Group (cs @ [c]) ps])"
  by (simp add: group_step_def is_path_def is_comment_def)

lemma group_step_blank: "group_step gs (GitignoreEntry BLANK v) = gs"
  by (simp add: group_step_def is_path_def is_comment_def)

lemma foldl_group_paths:
  "foldl group_step (acc @ [Group cs ps]) (map (GitignoreEntry PATH) ps')
     = acc @ [Group cs (ps @ ps')]"
  by (induction ps' arbitrary: ps) (simp_all add: group_step_path)

lemma foldl_group_comments_open:
  "foldl group_step (acc @ [Group cs []]) (map (GitignoreEntry COMMENT) cs')
     = acc @ [Group (cs @ cs') []]"
  by (induction cs' arbitrary: cs) (simp_all add: group_step_comment)

lemma foldl_group_comments_new:
  assumes "ps \<noteq> []" and "cs' \<noteq> []"
  shows "foldl group_step (acc @ [Group cs ps]) (map (GitignoreEntry COMMENT) cs')
     = acc @ [Group cs ps, Group cs' []]"
proof -
  from assms(2) obtain c r where cs': "cs' = c # r" by (cases cs') auto
  have "foldl group_step (acc @ [Group cs ps]) (map (GitignoreEntry COMMENT) cs')
      = foldl group_step ((acc @ [Group cs ps]) @ [Group [c] []]) (map (GitignoreEntry COMMENT) r)"
    using assms(1) by (simp add: cs' group_step_comment)
  also have "\<dots> = (acc @ [Group cs ps]) @ [Group ([c] @ r) []]"
    by (rule foldl_group_comments_open)
  finally show ?thesis by (simp add: cs')
qed

lemma regroup_open:
  "foldl group_step (acc @ [Group cs []]) (group_entries sp g)
     = acc @ [Group (cs @ comments g) (sorted_paths sp g)]"
proof -
  have "foldl group_step (acc @ [Group cs []]) (group_entries sp g)
      = group_step (foldl group_step (foldl group_step (acc @ [Group cs []])
            (map (GitignoreEntry COMMENT) (comments g)))
            (map (GitignoreEntry PATH) (sorted_paths sp g))) (GitignoreEntry BLANK [])"
    by (simp add: group_entries_def)
  also have "\<dots> = acc @ [Group (cs @ comments g) (sorted_paths sp g)]"
    by (simp only: foldl_group_comments_open foldl_group_paths group_step_blank append_Nil)
  finally show ?thesis .
qed

lemma regroup_new:
  assumes "ps \<noteq> []" and "comments g \<noteq> []"
  shows "foldl group_step (acc @ [Group cs ps]) (group_entries sp g)
     = (acc @ [Group cs ps]) @ [sort_group_paths sp g]"
proof -
  have "foldl group_step (acc @ [Group cs ps]) (group_entries sp g)
      = group_step (foldl group_step (foldl group_step (acc @ [Group cs ps])
            (map (GitignoreEntry COMMENT) (comments g)))
            (map (GitignoreEntry PATH) (sorted_paths sp g))) (GitignoreEntry BLANK [])"
    by (simp add: group_entries_def)
  also have "foldl group_step (acc @ [Group cs ps]) (map (GitignoreEntry COMMENT) (comments g))
      = (acc @ [Group cs ps]) @ [Group (comments g) []]"
    using foldl_group_comments_new [OF assms] by simp
  also have "group_step (foldl group_step ((acc @ [Group cs ps]) @ [Group (comments g) []])
            (map (GitignoreEntry PATH) (sorted_paths sp g))) (GitignoreEntry BLANK [])
      = (acc @ [Group cs ps]) @ [sort_group_paths sp g]"
    by (simp only: foldl_group_paths group_step_blank append_Nil sort_group_paths_def)
  finally show ?thesis .
qed

lemma sorted_paths_empty [simp]: "sorted_paths sp g = [] \<longleftrightarrow> paths g = []"
  by (auto simp: sorted_paths_def dest: arg_cong [where f = length])

lemma chained_Cons2:
  "chained (g # h # r) \<longleftrightarrow> paths g \<noteq> [] \<and> comments h \<noteq> [] \<and> chained (h # r)"
  by (auto simp: chained_def)

lemma regroup_chain:
  assumes "chained gs" and "gs \<noteq> [] \<longrightarrow> comments (hd gs) \<noteq> []" and "ps \<noteq> []"
  shows "foldl group_step (acc @ [Group cs ps]) (concat (map (group_entries sp) gs))
     = acc @ [Group cs ps] @ map (sort_group_paths sp) gs"
  using assms
proof (induction gs arbitrary: acc cs ps)
  case Nil
  then show ?case by simp
next
  case (Cons g r)
  from Cons.prems have cg: "comments g \<noteq> []" by simp
  have one: "foldl group_step (acc @ [Group cs ps]) (group_entries sp g)
      = (acc @ [Group cs ps]) @ [Group (comments g) (sorted_paths sp g)]"
    using regroup_new [OF Cons.prems(3) cg] by (simp add: sort_group_paths_def)
  show ?case
  proof (cases r)
    case Nil
    with one show ?thesis by (simp add: sort_group_paths_def)
  next
    case (Cons h r')
    with Cons.prems(1) have pg: "paths g \<noteq> []" and ch: "comments h \<noteq> []" and rest: "chained r"
      by (simp_all add: chained_Cons2)
    from pg have sp_ne: "sorted_paths sp g \<noteq> []" by simp
    have hd: "r \<noteq> [] \<longrightarrow> comments (hd r) \<noteq> []" using Cons ch by simp
    from Cons.IH [OF rest hd sp_ne, of "acc @ [Group cs ps]" "comments g"] one
    show ?thesis by (simp add: sort_group_paths_def)
  qed
qed

lemma regroup_all:
  assumes "chained (g # r)"
  shows "foldl group_step [Group [] []] (concat (map (group_entries sp) (g # r)))
     = map (sort_group_paths sp) (g # r)"
proof -
  have one: "foldl group_step [Group [] []] (group_entries sp g) = [sort_group_paths sp g]"
    using regroup_open [of "[]" "[]" sp g] by (simp add: sort_group_paths_def)
  show ?thesis
  proof (cases r)
    case Nil
    with one show ?thesis by simp
  next
    case (Cons h r')
    with assms have pg: "paths g \<noteq> []" and ch: "comments h \<noteq> []" and rest: "chained r"
      by (simp_all add: chained_Cons2)
    from pg have sp_ne: "sorted_paths sp g \<noteq> []" by simp
    have hd: "r \<noteq> [] \<longrightarrow> comments (hd r) \<noteq> []" using Cons ch by simp
    from regroup_chain [OF rest hd sp_ne, of "[]" "comments g" sp] one
    show ?thesis by (simp add: sort_group_paths_def)
  qed
qed

lemma group_step_chained:
  assumes "gs \<noteq> []" and "chained gs"
  shows "group_step gs e \<noteq> [] \<and> chained (group_step gs e)"
proof -
  from assms(1) obtain acc g where gs: "gs = acc @ [g]"
    by (cases gs rule: rev_cases) auto
  obtain cs ps where g: "g = Group cs ps" by (cases g)
  obtain t v where e: "e = GitignoreEntry t v" by (cases e)
  from assms(2) have c: "chained (acc @ [Group cs ps])" by (simp add: gs g)
  show ?thesis
  proof (cases t)
    case COMMENT
    have step: "group_step gs e
        = (if ps \<noteq> [] then acc @ [Group cs ps, Group [v] []] else acc @ [Group (cs @ [v]) ps])"
      by (simp only: gs g e COMMENT group_step_comment)
    from c show ?thesis
      unfolding step by (cases acc) (auto simp: chained_def butlast_append)
  next
    case BLANK
    with assms show ?thesis by (simp add: e group_step_blank)
  next
    case PATH
    have step: "group_step gs e = acc @ [Group cs (ps @ [v])]"
      by (simp only: gs g e PATH group_step_path)
    from c show ?thesis
      unfolding step by (cases acc) (auto simp: chained_def butlast_append)
  qed
qed

lemma grouping_chained:
  "gs \<noteq> [] \<Longrightarrow> chained gs \<Longrightarrow>
   foldl group_step gs es \<noteq> [] \<and> chained (foldl group_step gs es)"
  by (induction es arbitrary: gs) (simp_all add: group_step_chained)

lemma grouping_init_chained:
  "foldl group_step [Group [] []] es \<noteq> [] \<and> chained (foldl group_step [Group [] []] es)"
  by (rule grouping_chained) (simp_all add: chained_def)

lemma sorted_paths_idem [simp]: "sorted_paths sp (sort_group_paths sp g) = sorted_paths sp g"
  by (simp add: sorted_paths_def sort_group_paths_def sort_key_id_if_sorted)

lemma group_entries_sorted [simp]: "group_entries sp (sort_group_paths sp g) = group_entries sp g"
  by (simp add: group_entries_def) (simp add: sort_group_paths_def)

lemma group_key_sorted [simp]: "group_key (sort_group_paths sp g) = group_key g"
  by (simp add: group_key_def sort_group_paths_def)

lemma sort_groups_if_sorted:
  "sort_groups_if sg (map (sort_group_paths sp) (sort_groups_if sg gs))
     = map (sort_group_paths sp) (sort_groups_if sg gs)"
proof (cases sg)
  case True
  have "map group_key (map (sort_group_paths sp) (sort_key group_key gs))
      = map group_key (sort_key group_key gs)"
    by (simp add: comp_def)
  then have "sorted (map group_key (map (sort_group_paths sp) (sort_key group_key gs)))"
    by (simp only: sorted_sort_key)
  with True show ?thesis
    by (simp add: sort_groups_if_def sort_key_id_if_sorted)
next
  case False
  then show ?thesis by (simp add: sort_groups_if_def)
qed

lemma foldl_group_blank_front:
  "foldl group_step gs (GitignoreEntry BLANK [] # es) = foldl group_step gs es"
  by (simp add: group_step_blank)

lemma foldl_group_butlast:
  assumes "xs = es @ [GitignoreEntry BLANK []]"
  shows "foldl group_step gs (butlast xs) = foldl group_step gs xs"
  by (simp add: assms group_step_blank)

lemma sort_twice:
  assumes ch: "chained (sort_groups_if sg (foldl group_step [Group [] []] (entries d)))"
  shows "sort_gitignore sp sg (sort_gitignore sp sg d) = sort_gitignore sp sg d"
proof -
  let ?G = "foldl group_step [Group [] []] (entries d)"
  let ?G' = "sort_groups_if sg ?G"
  let ?X = "concat (map (group_entries sp) ?G')"
  have Gne: "?G \<noteq> []" using grouping_init_chained by blast
  then have G'ne: "?G' \<noteq> []"
    by (auto simp: sort_groups_if_def dest: arg_cong [where f = length])
  have once: "sort_gitignore sp sg d = d\<lparr>entries := GitignoreEntry BLANK [] # butlast ?X\<rparr>"
    by (rule sort_gitignore_entries [OF Gne])
  from concat_group_entries_snoc [OF G'ne, of sp]
  obtain es where es: "?X = es @ [GitignoreEntry BLANK []]" by blast
  from G'ne obtain g r where G': "?G' = g # r" by (cases ?G') auto
  have regroup: "foldl group_step [Group [] []] (GitignoreEntry BLANK [] # butlast ?X)
      = map (sort_group_paths sp) ?G'"
  proof -
    have "foldl group_step [Group [] []] (GitignoreEntry BLANK [] # butlast ?X)
        = foldl group_step [Group [] []] ?X"
      by (simp only: foldl_group_blank_front foldl_group_butlast [OF es])
    also have "\<dots> = map (sort_group_paths sp) ?G'"
      using regroup_all [of g r sp] ch by (simp only: G')
    finally show ?thesis .
  qed
  let ?d1 = "d\<lparr>entries := GitignoreEntry BLANK [] # butlast ?X\<rparr>"
  have e1: "entries ?d1 = GitignoreEntry BLANK [] # butlast ?X" by simp
  have ne1: "foldl group_step [Group [] []] (entries ?d1) \<noteq> []"
    using grouping_init_chained by blast
  have "sort_gitignore sp sg ?d1
      = ?d1\<lparr>entries := GitignoreEntry BLANK [] #
          butlast (concat (map (group_entries sp)
            (sort_groups_if sg (foldl group_step [Group [] []] (entries ?d1)))))\<rparr>"
    by (rule sort_gitignore_entries [OF ne1])
  also have "sort_groups_if sg (foldl group_step [Group [] []] (entries ?d1))
      = map (sort_group_paths sp) ?G'"
    by (simp only: e1 regroup sort_groups_if_sorted)
  also have "concat (map (group_entries sp) (map (sort_group_paths sp) ?G')) = ?X"
    by (simp add: comp_def)
  finally have "sort_gitignore sp sg ?d1 = ?d1" by simp
  then show ?thesis by (simp only: once)
qed

lemma sort_key_min_first:
  "\<forall>y\<in>set xs. f x \<le> f y \<Longrightarrow> sort_key f (x # xs) = x # sort_key f xs"
  by (simp add: insort_is_Cons)

lemma group_key_no_comments: "comments g = [] \<Longrightarrow> group_key g = []"
  by (simp add: group_key_def lower_def)

lemma sorted_groups_tail_comments:
  assumes "chained gs"
  shows "list_all (\<lambda>g. comments g \<noteq> []) (tl (sort_key group_key gs))"
proof (cases gs)
  case Nil
  then show ?thesis by simp
next
  case (Cons g0 r)
  from assms Cons have rc: "\<forall>g\<in>set r. comments g \<noteq> []"
    by (simp add: chained_def list_all_iff)
  show ?thesis
  proof (cases "comments g0 = []")
    case True
    then have "\<forall>y\<in>set r. group_key g0 \<le> group_key y"
      by (simp add: group_key_no_comments)
    then have "sort_key group_key gs = g0 # sort_key group_key r"
      unfolding Cons by (rule sort_key_min_first)
    with rc show ?thesis by (simp add: list_all_iff)
  next
    case False
    with rc Cons have "\<forall>g\<in>set gs. comments g \<noteq> []" by simp
    then have all: "\<forall>g\<in>set (sort_key group_key gs). comments g \<noteq> []" by simp
    have "set (tl (sort_key group_key gs)) \<subseteq> set (sort_key group_key gs)"
      by (cases "sort_key group_key gs") auto
    with all show ?thesis
      unfolding list_all_iff by blast
  qed
qed

lemma emitted_groups_tail_comments:
  "chained gs \<Longrightarrow> list_all (\<lambda>g. comments g \<noteq> []) (tl (sort_groups_if sg gs))"
  by (cases sg) (simp_all add: sort_groups_if_def sorted_groups_tail_comments, simp add: chained_def)

lemma regroup_length:
  assumes "list_all (\<lambda>g. comments g \<noteq> []) gs"
  shows "length (foldl group_step (acc @ [Group cs ps]) (concat (map (group_entries sp) gs)))
     = length acc + 1
       + (if gs = [] then 0
          else (if ps \<noteq> [] then 1 else 0)
               + length (filter (\<lambda>g. paths g \<noteq> []) (butlast gs)))"
  using assms
proof (induction gs arbitrary: acc cs ps)
  case Nil
  then show ?case by simp
next
  case (Cons g r)
  from Cons.prems have cg: "comments g \<noteq> []" and cr: "list_all (\<lambda>g. comments g \<noteq> []) r"
    by simp_all
  have rest: "(if r = [] then 0
          else (if sorted_paths sp g \<noteq> [] then 1 else 0)
               + length (filter (\<lambda>g. paths g \<noteq> []) (butlast r)))
      = length (filter (\<lambda>g. paths g \<noteq> []) (butlast (g # r)))"
    by simp
  show ?case
  proof (cases "ps = []")
    case True
    have "foldl group_step (acc @ [Group cs ps]) (group_entries sp g)
        = acc @ [Group (cs @ comments g) (sorted_paths sp g)]"
      unfolding True by (rule regroup_open)
    then have "length (foldl group_step (acc @ [Group cs ps])
          (concat (map (group_entries sp) (g # r))))
        = length (foldl group_step (acc @ [Group (cs @ comments g) (sorted_paths sp g)])
            (concat (map (group_entries sp) r)))"
      by simp
    also have "\<dots> = length acc + 1
        + (if r = [] then 0
           else (if sorted_paths sp g \<noteq> [] then 1 else 0)
                + length (filter (\<lambda>g. paths g \<noteq> []) (butlast r)))"
      by (rule Cons.IH [OF cr])
    finally show ?thesis using True by (simp only: rest) simp
  next
    case False
    have "foldl group_step (acc @ [Group cs ps]) (group_entries sp g)
        = (acc @ [Group cs ps]) @ [Group (comments g) (sorted_paths sp g)]"
      using regroup_new [OF False cg, of acc cs sp] by (simp add: sort_group_paths_def)
    then have "length (foldl group_step (acc @ [Group cs ps])
          (concat (map (group_entries sp) (g # r))))
        = length (foldl group_step ((acc @ [Group cs ps]) @ [Group (comments g) (sorted_paths sp g)])
            (concat (map (group_entries sp) r)))"
      by simp
    also have "\<dots> = length (acc @ [Group cs ps]) + 1
        + (if r = [] then 0
           else (if sorted_paths sp g \<noteq> [] then 1 else 0)
                + length (filter (\<lambda>g. paths g \<noteq> []) (butlast r)))"
      by (rule Cons.IH [OF cr])
    finally show ?thesis using False by (simp only: rest) simp
  qed
qed

lemma regroup_length_all:
  assumes "list_all (\<lambda>g. comments g \<noteq> []) r"
  shows "length (foldl group_step [Group [] []] (concat (map (group_entries sp) (g # r))))
     = 1 + length (filter (\<lambda>g. paths g \<noteq> []) (butlast (g # r)))"
proof -
  have "foldl group_step [Group [] []] (group_entries sp g)
      = [Group (comments g) (sorted_paths sp g)]"
    using regroup_open [of "[]" "[]" sp g] by simp
  then have "length (foldl group_step [Group [] []] (concat (map (group_entries sp) (g # r))))
      = length (foldl group_step ([] @ [Group (comments g) (sorted_paths sp g)])
          (concat (map (group_entries sp) r)))"
    by simp
  also have "\<dots> = length ([] :: Group list) + 1
      + (if r = [] then 0
         else (if sorted_paths sp g \<noteq> [] then 1 else 0)
              + length (filter (\<lambda>g. paths g \<noteq> []) (butlast r)))"
    by (rule regroup_length [OF assms])
  finally show ?thesis by simp
qed

lemma blanks_of_group: "filter is_blank (group_entries sp g) = [GitignoreEntry BLANK []]"
  by (simp add: group_entries_def is_blank_def comp_def)

lemma blanks_of_groups:
  "length (filter is_blank (concat (map (group_entries sp) gs))) = length gs"
  by (induction gs) (simp_all add: blanks_of_group)

lemma sort_gitignore_blanks:
  "length (filter is_blank (entries (sort_gitignore sp sg d)))
     = length (foldl group_step [Group [] []] (entries d))"
proof -
  let ?G = "foldl group_step [Group [] []] (entries d)"
  let ?G' = "sort_groups_if sg ?G"
  let ?X = "concat (map (group_entries sp) ?G')"
  have Gne: "?G \<noteq> []" using grouping_init_chained by blast
  then have G'ne: "?G' \<noteq> []"
    by (auto simp: sort_groups_if_def dest: arg_cong [where f = length])
  have len: "length ?G' = length ?G" by (simp add: sort_groups_if_def)
  from concat_group_entries_snoc [OF G'ne, of sp]
  obtain es where es: "?X = es @ [GitignoreEntry BLANK []]" by blast
  have "length (filter is_blank ?X) = length ?G'" by (rule blanks_of_groups)
  then have "Suc (length (filter is_blank es)) = length ?G'"
    by (simp add: es is_blank_def)
  then have "length (filter is_blank (GitignoreEntry BLANK [] # butlast ?X)) = length ?G"
    by (simp add: es is_blank_def len)
  then show ?thesis by (simp add: sort_gitignore_entries [OF Gne])
qed

lemma regroup_sorted_entries:
  "foldl group_step [Group [] []] (entries (sort_gitignore sp sg d))
     = foldl group_step [Group [] []]
         (concat (map (group_entries sp)
            (sort_groups_if sg (foldl group_step [Group [] []] (entries d)))))"
proof -
  let ?G = "foldl group_step [Group [] []] (entries d)"
  let ?G' = "sort_groups_if sg ?G"
  let ?X = "concat (map (group_entries sp) ?G')"
  have Gne: "?G \<noteq> []" using grouping_init_chained by blast
  then have G'ne: "?G' \<noteq> []"
    by (auto simp: sort_groups_if_def dest: arg_cong [where f = length])
  from concat_group_entries_snoc [OF G'ne, of sp]
  obtain es where es: "?X = es @ [GitignoreEntry BLANK []]" by blast
  have "foldl group_step [Group [] []] (GitignoreEntry BLANK [] # butlast ?X)
      = foldl group_step [Group [] []] ?X"
    by (simp only: foldl_group_blank_front foldl_group_butlast [OF es])
  then show ?thesis by (simp add: sort_gitignore_entries [OF Gne])
qed

lemma sort_twice_blanks:
  assumes "\<not> list_all (\<lambda>g. paths g \<noteq> [])
             (butlast (sort_groups_if sg (foldl group_step [Group [] []] (entries d))))"
  shows "length (filter is_blank (entries (sort_gitignore sp sg (sort_gitignore sp sg d))))
     < length (filter is_blank (entries (sort_gitignore sp sg d)))"
proof -
  let ?G = "foldl group_step [Group [] []] (entries d)"
  let ?G' = "sort_groups_if sg ?G"
  have Gne: "?G \<noteq> []" and ch: "chained ?G" using grouping_init_chained by blast+
  then have G'ne: "?G' \<noteq> []"
    by (auto simp: sort_groups_if_def dest: arg_cong [where f = length])
  then obtain g r where G': "?G' = g # r" by (cases ?G') auto
  have cr: "list_all (\<lambda>g. comments g \<noteq> []) r"
    using emitted_groups_tail_comments [OF ch, of sg] by (simp add: G')
  have "length (filter is_blank (entries (sort_gitignore sp sg (sort_gitignore sp sg d))))
      = length (foldl group_step [Group [] []] (entries (sort_gitignore sp sg d)))"
    by (rule sort_gitignore_blanks)
  also have "\<dots> = length (foldl group_step [Group [] []]
      (concat (map (group_entries sp) (g # r))))"
    by (simp only: regroup_sorted_entries G')
  also have "\<dots> = 1 + length (filter (\<lambda>g. paths g \<noteq> []) (butlast (g # r)))"
    by (rule regroup_length_all [OF cr])
  also have "\<dots> < 1 + length (butlast (g # r))"
  proof -
    from assms obtain x where "x \<in> set (butlast (g # r))" and "\<not> paths x \<noteq> []"
      unfolding G' list_all_iff by blast
    then have "length (filter (\<lambda>g. paths g \<noteq> []) (butlast (g # r))) < length (butlast (g # r))"
      by (rule length_filter_less)
    then show ?thesis by simp
  qed
  also have "\<dots> = length ?G'" by (simp add: G')
  also have "\<dots> = length (filter is_blank (entries (sort_gitignore sp sg d)))"
    by (simp add: sort_gitignore_blanks sort_groups_if_def)
  finally show ?thesis .
qed

text \<open>
  C5 (as the code has it). Sorting twice with the same flags gives the entries (and the
  document) that sorting once gives exactly when, in the order in which the groups are
  rebuilt (the order of the grouping, or the stably sorted one when \<open>sort_groups\<close> is true),
  every group but the last has at least one path. With \<open>sort_groups\<close> false that is always
  so, and sorting is idempotent for either value of \<open>sort_paths\<close>.
\<close>

theorem sort_gitignore_idempotent:
  "(entries (sort_gitignore sort_paths sort_groups (sort_gitignore sort_paths sort_groups d))
      = entries (sort_gitignore sort_paths sort_groups d))
     = list_all (\<lambda>g. paths g \<noteq> [])
         (butlast (sort_groups_if sort_groups (foldl group_step [Group [] []] (entries d))))
   \<and> (sort_gitignore sort_paths sort_groups (sort_gitignore sort_paths sort_groups d)
      = sort_gitignore sort_paths sort_groups d)
     = list_all (\<lambda>g. paths g \<noteq> [])
         (butlast (sort_groups_if sort_groups (foldl group_step [Group [] []] (entries d))))
   \<and> sort_gitignore sort_paths False (sort_gitignore sort_paths False d)
     = sort_gitignore sort_paths False d"
proof -
  let ?G = "foldl group_step [Group [] []] (entries d)"
  let ?once = "sort_gitignore sort_paths sort_groups d"
  let ?twice = "sort_gitignore sort_paths sort_groups ?once"
  let ?P = "list_all (\<lambda>g. paths g \<noteq> []) (butlast (sort_groups_if sort_groups ?G))"
  have ch: "chained ?G" using grouping_init_chained by blast
  have plain: "sort_gitignore sort_paths False (sort_gitignore sort_paths False d)
      = sort_gitignore sort_paths False d"
    by (rule sort_twice) (simp add: sort_groups_if_def ch)
  have yes: "?twice = ?once" if "?P"
  proof (rule sort_twice)
    from that emitted_groups_tail_comments [OF ch, of sort_groups]
    show "chained (sort_groups_if sort_groups ?G)" by (simp add: chained_def)
  qed
  have no: "entries ?twice \<noteq> entries ?once" if "\<not> ?P"
  proof
    assume "entries ?twice = entries ?once"
    with sort_twice_blanks [OF that, of sort_paths] show False by simp
  qed
  have e: "(entries ?twice = entries ?once) = ?P"
  proof
    assume "entries ?twice = entries ?once"
    with no show "?P" by blast
  next
    assume "?P"
    then have "?twice = ?once" by (rule yes)
    then show "entries ?twice = entries ?once" by simp
  qed
  have w: "(?twice = ?once) = ?P"
  proof
    assume "?twice = ?once"
    then have "entries ?twice = entries ?once" by simp
    with e show "?P" by blast
  next
    assume "?P"
    then show "?twice = ?once" by (rule yes)
  qed
  from e w plain show ?thesis by blast
qed

theorem sort_gitignore_idempotent_witness:
  "list_all (\<lambda>g. paths g \<noteq> [])
     (butlast (sort_groups_if True (foldl group_step [Group [] []] (entries (GitignoreFile_init
        [GitignoreEntry COMMENT ''a'', GitignoreEntry PATH ''p'', GitignoreEntry COMMENT ''b''])))))
   \<and> sort_gitignore True True (sort_gitignore True True (GitignoreFile_init
        [GitignoreEntry COMMENT ''a'', GitignoreEntry PATH ''p'', GitignoreEntry COMMENT ''b'']))
     = sort_gitignore True True (GitignoreFile_init
        [GitignoreEntry COMMENT ''a'', GitignoreEntry PATH ''p'', GitignoreEntry COMMENT ''b''])
   \<and> entries (sort_gitignore True True (GitignoreFile_init
        [GitignoreEntry COMMENT ''a'', GitignoreEntry PATH ''p'', GitignoreEntry COMMENT ''b'']))
     = [GitignoreEntry BLANK [], GitignoreEntry COMMENT ''a'', GitignoreEntry PATH ''p'',
        GitignoreEntry BLANK [], GitignoreEntry COMMENT ''b'']
   \<and> \<not> list_all (\<lambda>g. paths g \<noteq> [])
     (butlast (sort_groups_if True (foldl group_step [Group [] []] (entries (GitignoreFile_init
        [GitignoreEntry COMMENT ''b'', GitignoreEntry PATH ''p'', GitignoreEntry COMMENT ''a''])))))
   \<and> entries (sort_gitignore True True (sort_gitignore True True (GitignoreFile_init
        [GitignoreEntry COMMENT ''b'', GitignoreEntry PATH ''p'', GitignoreEntry COMMENT ''a''])))
     \<noteq> entries (sort_gitignore True True (GitignoreFile_init
        [GitignoreEntry COMMENT ''b'', GitignoreEntry PATH ''p'', GitignoreEntry COMMENT ''a'']))
   \<and> sort_gitignore True False (sort_gitignore True False (GitignoreFile_init
        [GitignoreEntry COMMENT ''b'', GitignoreEntry PATH ''p'', GitignoreEntry COMMENT ''a'']))
     = sort_gitignore True False (GitignoreFile_init
        [GitignoreEntry COMMENT ''b'', GitignoreEntry PATH ''p'', GitignoreEntry COMMENT ''a''])"
proof -
  let ?d0 = "GitignoreFile_init
        [GitignoreEntry COMMENT ''a'', GitignoreEntry PATH ''p'', GitignoreEntry COMMENT ''b'']"
  let ?d1 = "GitignoreFile_init
        [GitignoreEntry COMMENT ''b'', GitignoreEntry PATH ''p'', GitignoreEntry COMMENT ''a'']"
  have h0: "list_all (\<lambda>g. paths g \<noteq> [])
      (butlast (sort_groups_if True (foldl group_step [Group [] []] (entries ?d0))))"
    by code_simp
  have h1: "\<not> list_all (\<lambda>g. paths g \<noteq> [])
      (butlast (sort_groups_if True (foldl group_step [Group [] []] (entries ?d1))))"
    by code_simp
  have e0: "entries (sort_gitignore True True ?d0)
     = [GitignoreEntry BLANK [], GitignoreEntry COMMENT ''a'', GitignoreEntry PATH ''p'',
        GitignoreEntry BLANK [], GitignoreEntry COMMENT ''b'']"
    by code_simp
  from sort_gitignore_idempotent [of True True ?d0] h0
  have a: "sort_gitignore True True (sort_gitignore True True ?d0) = sort_gitignore True True ?d0"
    by blast
  from sort_gitignore_idempotent [of True True ?d1] h1
  have b: "entries (sort_gitignore True True (sort_gitignore True True ?d1))
      \<noteq> entries (sort_gitignore True True ?d1)"
    by blast
  from sort_gitignore_idempotent [of True True ?d1]
  have c: "sort_gitignore True False (sort_gitignore True False ?d1) = sort_gitignore True False ?d1"
    by blast
  from h0 a e0 h1 b c show ?thesis by blast
qed

text \<open>
  C5 as stated covers every flag combination. With \<open>sort_groups\<close> true, the entries
  comment \<^verbatim>\<open>b\<close>, path \<^verbatim>\<open>p\<close>, comment \<^verbatim>\<open>a\<close> sort to a group of the comment \<^verbatim>\<open>a\<close> alone
  before the group of \<^verbatim>\<open>b\<close>; sorting again merges the two comments into one group, and the
  blank between them is gone.
\<close>

theorem sort_gitignore_idempotent_counterexample:
  "entries (sort_gitignore True True (sort_gitignore True True (GitignoreFile_init
      [GitignoreEntry COMMENT ''b'', GitignoreEntry PATH ''p'', GitignoreEntry COMMENT ''a''])))
   \<noteq> entries (sort_gitignore True True (GitignoreFile_init
      [GitignoreEntry COMMENT ''b'', GitignoreEntry PATH ''p'', GitignoreEntry COMMENT ''a'']))"
  by code_simp

subsection \<open>The round trip through the renderer and the parser\<close>

lemma join_Cons: "ys \<noteq> [] \<Longrightarrow> join sep (x # ys) = x @ sep @ join sep ys"
  by (cases ys) simp_all

lemma join_append:
  "xs \<noteq> [] \<Longrightarrow> ys \<noteq> [] \<Longrightarrow> join sep (xs @ ys) = join sep xs @ sep @ join sep ys"
proof (induction xs)
  case Nil
  then show ?case by simp
next
  case (Cons x xs)
  show ?case
  proof (cases "xs = []")
    case True
    with Cons.prems show ?thesis by (simp add: join_Cons)
  next
    case False
    with Cons show ?thesis by (simp add: join_Cons)
  qed
qed

lemma split_acc_nonempty: "split_acc cur s \<noteq> []"
  by (induction s arbitrary: cur) simp_all

lemma join_split_acc: "join [NL] (split_acc cur s) = cur @ s"
  by (induction s arbitrary: cur) (simp_all add: join_Cons split_acc_nonempty)

lemma join_split_lines: "join [NL] (split_lines s) = s"
  by (simp add: split_lines_def join_split_acc)

lemma split_acc_no_nl:
  "NL \<notin> set cur \<Longrightarrow> l \<in> set (split_acc cur s) \<Longrightarrow> NL \<notin> set l"
proof (induction s arbitrary: cur)
  case Nil
  then show ?case by simp
next
  case (Cons c cs)
  show ?case
  proof (cases "c = NL")
    case True
    with Cons.prems have "l = cur \<or> l \<in> set (split_acc [] cs)" by simp
    then show ?thesis
    proof
      assume "l = cur" with Cons.prems(1) show ?thesis by simp
    next
      assume "l \<in> set (split_acc [] cs)"
      with Cons.IH [of "[]"] show ?thesis by simp
    qed
  next
    case False
    with Cons.prems have "NL \<notin> set (cur @ [c])" and "l \<in> set (split_acc (cur @ [c]) cs)"
      by simp_all
    then show ?thesis by (rule Cons.IH)
  qed
qed

lemma split_lines_no_nl: "l \<in> set (split_lines s) \<Longrightarrow> NL \<notin> set l"
  using split_acc_no_nl [of "[]" l s] by (simp add: split_lines_def)

lemma readlines_acc_line:
  "NL \<notin> set l \<Longrightarrow> readlines_acc cur (l @ NL # rest) = (cur @ l @ [NL]) # readlines_acc [] rest"
  by (induction l arbitrary: cur) auto

lemma readlines_join:
  "ls \<noteq> [] \<Longrightarrow> \<forall>l\<in>set ls. NL \<notin> set l \<Longrightarrow>
   readlines (join [NL] ls @ [NL]) = map (\<lambda>l. l @ [NL]) ls"
proof (induction ls)
  case Nil
  then show ?case by simp
next
  case (Cons x ls)
  from Cons.prems have x: "NL \<notin> set x" by simp
  show ?case
  proof (cases "ls = []")
    case True
    with readlines_acc_line [OF x, of "[]" "[]"] show ?thesis
      by (simp add: readlines_def)
  next
    case False
    with Cons have IH: "readlines_acc [] (join [NL] ls @ [NL]) = map (\<lambda>l. l @ [NL]) ls"
      by (simp add: readlines_def)
    from False have "join [NL] (x # ls) @ [NL] = x @ NL # (join [NL] ls @ [NL])"
      by (simp add: join_Cons)
    with readlines_acc_line [OF x, of "[]" "join [NL] ls @ [NL]"] IH show ?thesis
      by (simp add: readlines_def)
  qed
qed

lemma rstrip_nl_line: "NL \<notin> set l \<Longrightarrow> rstrip_chars [NL] (l @ [NL]) = l"
proof -
  assume a: "NL \<notin> set l"
  have "dropWhile (\<lambda>c. c = NL) (rev l) = rev l"
  proof (cases "rev l")
    case Nil
    then show ?thesis by simp
  next
    case (Cons x xs)
    then have "x \<in> set l" by (metis list.set_intros(1) set_rev)
    with a have "x \<noteq> NL" by blast
    with Cons show ?thesis by simp
  qed
  then show ?thesis by (simp add: rstrip_chars_def)
qed

lemma re_match_bracket_template:
  "NL \<notin> set h \<Longrightarrow> re_match_bracket pre (pre @ h @ '']'') = Some h"
  by (simp add: re_match_bracket_def startswith_def Let_def)

lemma start_regex_template:
  "NL \<notin> set h \<Longrightarrow>
   GENERATED_GUARD_START_REGEX (GENERATED_GUARD_START_TEMPLATE (Some h)) = Some h"
  by (simp add: GENERATED_GUARD_START_REGEX_def GENERATED_GUARD_START_TEMPLATE_def
      re_match_bracket_template)

lemma start_template_no_nl:
  "NL \<notin> set h \<Longrightarrow> NL \<notin> set (GENERATED_GUARD_START_TEMPLATE (Some h))"
  by (simp add: GENERATED_GUARD_START_TEMPLATE_def GENERATED_GUARD_START_PREFIX_def)

lemma end_guard_no_nl: "NL \<notin> set GENERATED_GUARD_END"
  by (simp add: GENERATED_GUARD_END_def)

lemma start_regex_needs_hash:
  "\<not> startswith s ''#'' \<Longrightarrow> GENERATED_GUARD_START_REGEX s = None"
  by (cases s)
    (simp_all add: GENERATED_GUARD_START_REGEX_def re_match_bracket_def startswith_def
      GENERATED_GUARD_START_PREFIX_def)

lemma start_regex_comment: "GENERATED_GUARD_START_REGEX (''# '' @ v) = None"
  by (simp add: GENERATED_GUARD_START_REGEX_def re_match_bracket_def startswith_def
      GENERATED_GUARD_START_PREFIX_def)

lemma str_entry_no_nl: "canonical_entry e \<Longrightarrow> NL \<notin> set (str_entry e)"
  by (induction e rule: canonical_entry.induct) (simp_all add: str_entry_def is_comment_def)

lemma str_entry_not_start:
  "canonical_entry e \<Longrightarrow> GENERATED_GUARD_START_REGEX (str_entry e) = None"
proof (induction e rule: canonical_entry.induct)
  case (1 v)
  show ?case using start_regex_comment [of v] by (simp add: str_entry_def is_comment_def)
next
  case (2 v)
  then show ?case
    by (simp add: str_entry_def is_comment_def start_regex_needs_hash startswith_def)
next
  case (3 v)
  then show ?case
    by (simp add: str_entry_def is_comment_def start_regex_needs_hash)
qed

lemma lstrip_space_front: "lstrip (CHR '' '' # v) = lstrip v"
  by (simp add: lstrip_def isspace_def)

lemma user_line_entry_str: "canonical_entry e \<Longrightarrow> user_line_entry (str_entry e) = e"
proof (induction e rule: canonical_entry.induct)
  case (1 v)
  then show ?case
    by (simp add: str_entry_def is_comment_def user_line_entry_def lstrip_space_front)
next
  case (2 v)
  then show ?case by (simp add: str_entry_def is_comment_def user_line_entry_def)
next
  case (3 v)
  then have ns: "\<not> (\<forall>c\<in>set v. isspace c)" by (simp add: strip_empty_iff)
  from 3 have "\<not> (v \<noteq> [] \<and> hd v = CHR ''#'')" by (simp add: startswith_hash)
  with ns show ?case
    by (simp add: str_entry_def is_comment_def user_line_entry_def)
qed

lemma parse_line_generated:
  assumes "NL \<notin> set l" and "l \<noteq> GENERATED_GUARD_END"
  shows "parse_line \<lparr>gitignore = g, state = GENERATED, generated_content_list = acc\<rparr> (l @ [NL])
     = \<lparr>gitignore = g\<lparr>parameters_hash := pick_parameters_hash (parameters_hash g) l\<rparr>,
        state = GENERATED, generated_content_list = acc @ [l]\<rparr>"
  using assms
  by (simp add: parse_line_def Let_def rstrip_nl_line pick_parameters_hash_def
      split: option.splits)

lemma foldl_parse_generated:
  assumes "\<forall>l\<in>set ls. NL \<notin> set l" and "GENERATED_GUARD_END \<notin> set ls"
  shows "foldl parse_line \<lparr>gitignore = g, state = GENERATED, generated_content_list = acc\<rparr>
           (map (\<lambda>l. l @ [NL]) ls)
     = \<lparr>gitignore = g\<lparr>parameters_hash := foldl pick_parameters_hash (parameters_hash g) ls\<rparr>,
        state = GENERATED, generated_content_list = acc @ ls\<rparr>"
  using assms
proof (induction ls arbitrary: g acc)
  case Nil
  then show ?case by simp
next
  case (Cons l ls)
  from Cons.prems have l: "NL \<notin> set l" "l \<noteq> GENERATED_GUARD_END"
    and rest: "\<forall>l\<in>set ls. NL \<notin> set l" "GENERATED_GUARD_END \<notin> set ls"
    by auto
  show ?case
    by (simp add: parse_line_generated [OF l] Cons.IH [OF rest])
qed

lemma parse_line_end:
  "parse_line \<lparr>gitignore = g, state = GENERATED, generated_content_list = acc\<rparr>
      (GENERATED_GUARD_END @ [NL])
     = \<lparr>gitignore = g\<lparr>generated_content := join [NL] acc\<rparr>, state = USER,
        generated_content_list = acc\<rparr>"
  by (simp add: parse_line_def Let_def rstrip_nl_line end_guard_no_nl)

lemma parse_line_start:
  "NL \<notin> set h \<Longrightarrow>
   parse_line \<lparr>gitignore = g, state = USER, generated_content_list = acc\<rparr>
      (GENERATED_GUARD_START_TEMPLATE (Some h) @ [NL])
     = \<lparr>gitignore = g\<lparr>generated_content_hash := Some h\<rparr>, state = GENERATED,
        generated_content_list = acc\<rparr>"
  by (simp add: parse_line_def Let_def rstrip_nl_line start_template_no_nl start_regex_template)

lemma foldl_parse_user:
  assumes "list_all canonical_entry es"
  shows "foldl parse_line \<lparr>gitignore = g, state = USER, generated_content_list = acc\<rparr>
           (map (\<lambda>l. l @ [NL]) (map str_entry es))
     = \<lparr>gitignore = g\<lparr>entries := entries g @ es\<rparr>, state = USER,
        generated_content_list = acc\<rparr>"
proof -
  let ?st = "\<lparr>gitignore = g, state = USER, generated_content_list = acc\<rparr>"
  let ?raw = "map (\<lambda>l. l @ [NL]) (map str_entry es)"
  have strip: "rstrip_chars [NL] (str_entry e @ [NL]) = str_entry e" if "e \<in> set es" for e
    using that assms by (simp add: list_all_iff rstrip_nl_line str_entry_no_nl)
  have none: "\<forall>raw\<in>set ?raw. GENERATED_GUARD_START_REGEX (rstrip_chars [NL] raw) = None"
    using assms strip by (auto simp: list_all_iff str_entry_not_start)
  have again: "map (\<lambda>raw. user_line_entry (rstrip_chars [NL] raw)) ?raw = es"
    using assms strip by (simp add: list_all_iff user_line_entry_str map_idI)
  have "state ?st = USER" by simp
  from foldl_user_entries [OF this none] show ?thesis
    by (simp only: again) simp
qed

lemma render_lines:
  assumes "entries d \<noteq> []"
  shows "render d = join [NL]
     (GENERATED_GUARD_START_TEMPLATE (generated_content_hash d)
      # split_lines (generated_content d)
      @ GENERATED_GUARD_END # map str_entry (entries d)) @ [NL]"
proof -
  have ne: "map str_entry (entries d) \<noteq> []" using assms by simp
  have sl: "split_lines (generated_content d) \<noteq> []"
    by (simp add: split_lines_def split_acc_nonempty)
  show ?thesis
    using ne sl
    by (simp add: render_def Let_def join_Cons join_append join_split_lines)
qed

lemma parse_lines_of_document:
  assumes hn: "NL \<notin> set h" and can: "list_all canonical_entry es"
    and noend: "GENERATED_GUARD_END \<notin> set G" and Gn: "\<forall>l\<in>set G. NL \<notin> set l"
  shows "foldl parse_line parse_init
           (map (\<lambda>l. l @ [NL])
              (GENERATED_GUARD_START_TEMPLATE (Some h) # G
               @ GENERATED_GUARD_END # map str_entry es))
     = \<lparr>gitignore = \<lparr>entries = es, generated_content = join [NL] G,
                      generated_content_hash = Some h,
                      parameters_hash = last_parameters_hash G\<rparr>,
        state = USER, generated_content_list = G\<rparr>"
proof -
  let ?f = "\<lambda>l. l @ [NL]"
  let ?S = "GENERATED_GUARD_START_TEMPLATE (Some h)"
  let ?U = "map str_entry es"
  let ?g1 = "(GitignoreFile_init [])\<lparr>generated_content_hash := Some h\<rparr>"
  let ?g2 = "?g1\<lparr>parameters_hash := foldl pick_parameters_hash (parameters_hash ?g1) G\<rparr>"
  let ?g3 = "?g2\<lparr>generated_content := join [NL] ([] @ G)\<rparr>"
  let ?g4 = "?g3\<lparr>entries := entries ?g3 @ es\<rparr>"
  have split: "foldl parse_line parse_init (map ?f (?S # G @ GENERATED_GUARD_END # ?U))
      = foldl parse_line
          (parse_line (foldl parse_line (parse_line parse_init (?S @ [NL])) (map ?f G))
             (GENERATED_GUARD_END @ [NL]))
          (map ?f ?U)"
    by (simp del: map_map)
  have s1: "parse_line parse_init (?S @ [NL])
      = \<lparr>gitignore = ?g1, state = GENERATED, generated_content_list = []\<rparr>"
    unfolding parse_init_def by (rule parse_line_start [OF hn])
  have s2: "foldl parse_line
        \<lparr>gitignore = ?g1, state = GENERATED, generated_content_list = []\<rparr> (map ?f G)
      = \<lparr>gitignore = ?g2, state = GENERATED, generated_content_list = [] @ G\<rparr>"
    by (rule foldl_parse_generated [OF Gn noend])
  have s3: "parse_line \<lparr>gitignore = ?g2, state = GENERATED, generated_content_list = [] @ G\<rparr>
        (GENERATED_GUARD_END @ [NL])
      = \<lparr>gitignore = ?g3, state = USER, generated_content_list = [] @ G\<rparr>"
    by (rule parse_line_end)
  have s4: "foldl parse_line \<lparr>gitignore = ?g3, state = USER, generated_content_list = [] @ G\<rparr>
        (map ?f ?U)
      = \<lparr>gitignore = ?g4, state = USER, generated_content_list = [] @ G\<rparr>"
    by (rule foldl_parse_user [OF can])
  have g4: "?g4 = \<lparr>entries = es, generated_content = join [NL] G,
                    generated_content_hash = Some h,
                    parameters_hash = last_parameters_hash G\<rparr>"
    by (simp add: GitignoreFile_init_def last_parameters_hash_def)
  show ?thesis
    by (simp only: split s1 s2 s3 s4 g4) simp
qed

lemma hex_digit_no_nl: "hex_digit n \<noteq> NL"
proof -
  have "n mod 16 < length ''0123456789abcdef''" by simp
  then have "hex_digit n \<in> set ''0123456789abcdef''"
    unfolding hex_digit_def by (rule nth_mem)
  then show ?thesis by auto
qed

lemma hash_content_no_nl: "NL \<notin> set (hash_content s)"
proof
  assume "NL \<in> set (hash_content s)"
  then obtain w where "NL \<in> set (hex32 w)"
    by (auto simp: hash_content_def hexdigest_def)
  then obtain n where "NL = hex_digit n"
    by (auto simp: hex32_def)
  with hex_digit_no_nl [of n] show False by simp
qed

text \<open>
  C1 (as the code has it). For a document with at least one entry, whose entries are as the
  parser produces them (a comment without line feed and without leading whitespace, a blank
  with the empty value, a path without line feed that does not begin with \<^verbatim>\<open>#\<close> and is
  not all whitespace), whose generated content has no line equal to the end guard, whose
  generated-content hash is set and has no line feed (every refreshed hash is such), and
  whose parameters hash is the one of the last marker line of the generated content (unset
  when there is none): parsing the rendered text gives the document back, entries and
  generated fields alike.
\<close>

theorem parse_render_round_trip:
  assumes wf: "well_formed d" and ne: "entries d \<noteq> []"
  shows "parse (render d) = Inr d"
proof -
  from wf obtain h where h: "generated_content_hash d = Some h" and hn: "NL \<notin> set h"
    by (auto simp: well_formed_def split: option.splits)
  from wf have can: "list_all canonical_entry (entries d)"
    and noend: "GENERATED_GUARD_END \<notin> set (split_lines (generated_content d))"
    and ph: "parameters_hash d = last_parameters_hash (split_lines (generated_content d))"
    by (simp_all add: well_formed_def)
  let ?G = "split_lines (generated_content d)"
  let ?L = "GENERATED_GUARD_START_TEMPLATE (Some h) # ?G
            @ GENERATED_GUARD_END # map str_entry (entries d)"
  have Gn: "\<forall>l\<in>set ?G. NL \<notin> set l" by (simp add: split_lines_no_nl)
  have nl: "\<forall>l\<in>set ?L. NL \<notin> set l"
    using can Gn hn
    by (auto simp: start_template_no_nl end_guard_no_nl list_all_iff str_entry_no_nl)
  have lines: "readlines (render d) = map (\<lambda>l. l @ [NL]) ?L"
    unfolding render_lines [OF ne] h by (rule readlines_join [OF _ nl]) simp
  have same: "\<lparr>entries = entries d, generated_content = join [NL] ?G,
                generated_content_hash = Some h,
                parameters_hash = last_parameters_hash ?G\<rparr> = d"
    by (rule GitignoreFile.equality) (simp_all add: h ph join_split_lines)
  show ?thesis
    unfolding parse_def lines parse_lines_of_document [OF hn can noend Gn] same
    by simp
qed

theorem parse_render_round_trip_witness:
  "well_formed sample_document \<and> entries sample_document \<noteq> []
   \<and> check_generated_content_hash sample_document
   \<and> parse (render sample_document) = Inr sample_document"
proof -
  have w1: "list_all canonical_entry (entries sample_document)"
    by (simp add: sample_document_def lstrip_def strip_def rstrip_def startswith_def
        isspace_def)
  have w2: "GENERATED_GUARD_END \<notin> set (split_lines sample_generated_content)"
    by code_simp
  have w3: "Some ''abc'' = last_parameters_hash (split_lines sample_generated_content)"
    by code_simp
  have wf: "well_formed sample_document"
    using w1 w2 w3
    by (simp add: well_formed_def sample_document_def hash_content_no_nl)
  have ne: "entries sample_document \<noteq> []"
    by (simp add: sample_document_def)
  have ck: "check_generated_content_hash sample_document"
    by (simp add: check_generated_content_hash_def sample_document_def)
  from parse_render_round_trip [OF wf ne] wf ne ck show ?thesis by blast
qed

text \<open>
  C1 as stated covers the document without entries. Rendering it ends in an empty line,
  which parses to one blank entry: the entries are not reproduced.
\<close>

theorem parse_render_round_trip_counterexample:
  "well_formed (refresh_generated_content_hash (GitignoreFile_init []))
   \<and> check_generated_content_hash (refresh_generated_content_hash (GitignoreFile_init []))
   \<and> entries (refresh_generated_content_hash (GitignoreFile_init [])) = []
   \<and> parse (render (refresh_generated_content_hash (GitignoreFile_init [])))
       = Inr ((refresh_generated_content_hash (GitignoreFile_init []))
               \<lparr>entries := [GitignoreEntry BLANK []]\<rparr>)"
proof -
  let ?d = "refresh_generated_content_hash (GitignoreFile_init [])"
  let ?h = "hash_content []"
  let ?L = "GENERATED_GUARD_START_TEMPLATE (Some ?h) # [[]]
            @ GENERATED_GUARD_END # map str_entry [GitignoreEntry BLANK []]"
  have nohash: "PARAMETER_HASH_REGEX [] = None"
    by (simp add: PARAMETER_HASH_REGEX_def re_match_bracket_def startswith_def
        PARAMETER_HASH_PREFIX_def)
  have nopick: "last_parameters_hash [[]] = None"
    by (simp add: last_parameters_hash_def pick_parameters_hash_def nohash)
  have wf: "well_formed ?d"
    by (simp add: well_formed_def refresh_generated_content_hash_def GitignoreFile_init_def
        split_lines_def GENERATED_GUARD_END_def hash_content_no_nl nopick)
  have ck: "check_generated_content_hash ?d"
    by (simp add: check_generated_content_hash_def refresh_generated_content_hash_def)
  have e: "entries ?d = []"
    by (simp add: refresh_generated_content_hash_def GitignoreFile_init_def)
  have rendered: "render ?d = join [NL] ?L @ [NL]"
    by (simp add: render_def refresh_generated_content_hash_def GitignoreFile_init_def
        str_entry_def is_comment_def)
  have nl: "\<forall>l\<in>set ?L. NL \<notin> set l"
    by (simp add: start_template_no_nl hash_content_no_nl end_guard_no_nl str_entry_def
        is_comment_def)
  have lines: "readlines (render ?d) = map (\<lambda>l. l @ [NL]) ?L"
    unfolding rendered by (rule readlines_join [OF _ nl]) simp
  have parsed: "foldl parse_line parse_init (map (\<lambda>l. l @ [NL]) ?L)
      = \<lparr>gitignore = \<lparr>entries = [GitignoreEntry BLANK []], generated_content = join [NL] [[]],
                       generated_content_hash = Some ?h,
                       parameters_hash = last_parameters_hash [[]]\<rparr>,
         state = USER, generated_content_list = [[]]\<rparr>"
    by (rule parse_lines_of_document)
      (simp_all add: hash_content_no_nl GENERATED_GUARD_END_def)
  have p: "parse (render ?d) = Inr (?d\<lparr>entries := [GitignoreEntry BLANK []]\<rparr>)"
    unfolding parse_def lines parsed
    by (simp add: nopick refresh_generated_content_hash_def GitignoreFile_init_def)
  from wf ck e p show ?thesis by blast
qed

end
